theory Spec2Isabelle
  imports Complex_Main
begin

section \<open>The bank simulation of DTA\_projekt.py\<close>

text \<open>
  The program drives a discrete-event simulation: a customer generator, a queue-length
  monitor and one process per customer run as coroutines on an event queue, and the
  tellers are a capacity-limited resource with a FIFO wait list.  The model below follows
  the program text process by process.  The event queue, the resource and the race
  \<^verbatim>\<open>req | env.timeout(patience)\<close> are the ones the program obtains from its
  simulation library; their behaviour is written out here as far as the program uses it.

  Simulated time and the random draws are rational numbers: floating-point rounding is
  not modelled.  The pseudo-random generator is a stream \<open>draws\<close>, where \<open>draws k\<close> is
  the value returned by the \<open>k\<close>-th call of \<^verbatim>\<open>random.expovariate\<close> since the
  program started, and the state records how many draws were consumed.
\<close>

subsection \<open>Configuration (the module-level constants)\<close>

record config =
  RANDOM_SEED :: nat
  NUM_TELLERS :: nat
  INTER_ARRIVAL_TIME :: rat
  SERVICE_TIME :: rat
  MAX_QUEUE_LENGTH :: nat
  MAX_WAIT_TIME :: rat
  SIMULATION_TIME :: rat

definition source_config :: config where
  "source_config =
     \<lparr>RANDOM_SEED = 10, NUM_TELLERS = 2, INTER_ARRIVAL_TIME = 2, SERVICE_TIME = 5,
      MAX_QUEUE_LENGTH = 3, MAX_WAIT_TIME = 6, SIMULATION_TIME = 100\<rparr>"

subsection \<open>Events, processes and the simulation state\<close>

datatype error = ValueError | ZeroDivisionError

text \<open>
  One constructor per event object the program creates: the \<open>Initialize\<close> event of each
  process, the stop event of \<^verbatim>\<open>env.run(until=...)\<close>, the timeouts of generator and
  monitor, and for customer \<open>n\<close> its request, patience timeout, race condition, service
  timeout, release and process-termination event.
\<close>

datatype event =
    InitGen | InitMon | Until | GenTimeout | MonTimeout
  | InitCust nat | ReqEv nat | PatienceEv nat | CondEv nat
  | ServiceEv nat | ReleaseEv nat | ProcEnd nat

text \<open>Where the coroutine of a customer is suspended.\<close>

datatype phase = NotStarted | AtRace | InService | Finished

record cust =
  arrival_time :: rat
  phase :: phase
  req_triggered :: bool
  req_processed :: bool
  cond_triggered :: bool

definition new_cust :: cust where
  "new_cust = \<lparr>arrival_time = 0, phase = NotStarted, req_triggered = False,
               req_processed = False, cond_triggered = False\<rparr>"

type_synonym entry = "rat \<times> nat \<times> nat \<times> event"

record state =
  now :: rat
  eid :: nat
  evq :: "entry list"
  users :: "nat list"
  queue :: "nat list"
  rng :: nat
  gen_i :: nat
  custs :: "nat \<Rightarrow> cust"
  balked_customers :: nat
  reneged_customers :: nat
  served_customers :: nat
  waiting_times :: "rat list"
  queue_lengths :: "nat list"
  total_time_tellers_busy :: rat

definition URGENT :: nat where "URGENT = 0"
definition NORMAL :: nat where "NORMAL = 1"

subsection \<open>The event queue\<close>

text \<open>
  The library keeps a heap of tuples \<open>(time, priority, id, event)\<close> and pops the least
  one; ids grow with every scheduled event, so events of equal time and priority leave
  in the order they were scheduled.  The model keeps the queue as a sorted list.
\<close>

fun key_less :: "entry \<Rightarrow> entry \<Rightarrow> bool" where
  "key_less (t, p, e, _) (t', p', e', _) =
     (t < t' \<or> (t = t' \<and> (p < p' \<or> (p = p' \<and> e < e'))))"

fun heappush :: "entry \<Rightarrow> entry list \<Rightarrow> entry list" where
  "heappush x [] = [x]"
| "heappush x (y # ys) = (if key_less x y then x # y # ys else y # heappush x ys)"

definition schedule :: "event \<Rightarrow> nat \<Rightarrow> rat \<Rightarrow> state \<Rightarrow> state" where
  "schedule ev prio delay st =
     st\<lparr>evq := heappush (now st + delay, prio, eid st, ev) (evq st), eid := eid st + 1\<rparr>"

text \<open>\<^verbatim>\<open>env.timeout(delay)\<close> raises \<open>ValueError\<close> on a negative delay.\<close>

definition timeout :: "event \<Rightarrow> rat \<Rightarrow> state \<Rightarrow> error + state" where
  "timeout ev delay st = (if delay < 0 then Inl ValueError else Inr (schedule ev NORMAL delay st))"

text \<open>
  \<^verbatim>\<open>random.expovariate(1.0 / mean)\<close>: the division fails for a zero mean; otherwise the
  next value of the stream is returned.
\<close>

definition expovariate :: "(nat \<Rightarrow> rat) \<Rightarrow> rat \<Rightarrow> state \<Rightarrow> error + (rat \<times> state)" where
  "expovariate draws mean st =
     (if mean = 0 then Inl ZeroDivisionError else Inr (draws (rng st), st\<lparr>rng := rng st + 1\<rparr>))"

subsection \<open>The resource (the tellers)\<close>

text \<open>
  Granting looks at the head of the wait list only: if a unit is free the head request
  joins \<open>users\<close>, is marked triggered and its event is scheduled for the current time.
\<close>

definition trigger_put :: "config \<Rightarrow> state \<Rightarrow> state" where
  "trigger_put cfg st =
     (case queue st of
        [] \<Rightarrow> st
      | h # rest \<Rightarrow>
          if length (users st) < NUM_TELLERS cfg
          then schedule (ReqEv h) NORMAL 0
                 (st\<lparr>users := users st @ [h], queue := rest,
                     custs := (custs st)(h := (custs st h)\<lparr>req_triggered := True\<rparr>)\<rparr>)
          else st)"

text \<open>\<^verbatim>\<open>bank.request()\<close>: the request joins the wait list and granting is attempted.\<close>

definition request :: "config \<Rightarrow> nat \<Rightarrow> state \<Rightarrow> state" where
  "request cfg n st = trigger_put cfg (st\<lparr>queue := queue st @ [n]\<rparr>)"

text \<open>
  Leaving the \<^verbatim>\<open>with\<close> block first cancels the request (a request that was not
  granted is removed from the wait list; removing an absent element raises) and then
  releases it (it is removed from \<open>users\<close> if it is there, and the release event is
  scheduled; processing that event attempts granting).
\<close>

definition cancel :: "nat \<Rightarrow> state \<Rightarrow> error + state" where
  "cancel n st =
     (if req_triggered (custs st n) then Inr st
      else if n \<in> set (queue st) then Inr (st\<lparr>queue := remove1 n (queue st)\<rparr>)
      else Inl ValueError)"

definition release :: "nat \<Rightarrow> state \<Rightarrow> state" where
  "release n st = schedule (ReleaseEv n) NORMAL 0 (st\<lparr>users := remove1 n (users st)\<rparr>)"

definition exit_with :: "nat \<Rightarrow> state \<Rightarrow> error + state" where
  "exit_with n st = (case cancel n st of Inl e \<Rightarrow> Inl e | Inr st' \<Rightarrow> Inr (release n st'))"

definition finish :: "nat \<Rightarrow> state \<Rightarrow> state" where
  "finish n st =
     schedule (ProcEnd n) NORMAL 0 (st\<lparr>custs := (custs st)(n := (custs st n)\<lparr>phase := Finished\<rparr>)\<rparr>)"

subsection \<open>The customer process\<close>

text \<open>From the start of the coroutine to its first suspension (or its return when balking).\<close>

definition customer_start :: "config \<Rightarrow> nat \<Rightarrow> state \<Rightarrow> error + state" where
  "customer_start cfg n st =
     (if length (queue st) \<ge> MAX_QUEUE_LENGTH cfg
      then Inr (finish n (st\<lparr>balked_customers := balked_customers st + 1\<rparr>))
      else
        timeout (PatienceEv n) (MAX_WAIT_TIME cfg)
          (request cfg n
             (st\<lparr>custs := (custs st)(n := \<lparr>arrival_time = now st, phase = AtRace,
                     req_triggered = False, req_processed = False, cond_triggered = False\<rparr>)\<rparr>)))"

text \<open>
  The race: each of the two events, when processed, triggers the condition unless it is
  triggered already.
\<close>

definition cond_check :: "nat \<Rightarrow> state \<Rightarrow> state" where
  "cond_check n st =
     (if cond_triggered (custs st n) then st
      else schedule (CondEv n) NORMAL 0
             (st\<lparr>custs := (custs st)(n := (custs st n)\<lparr>cond_triggered := True\<rparr>)\<rparr>))"

definition request_processed :: "nat \<Rightarrow> state \<Rightarrow> state" where
  "request_processed n st =
     cond_check n (st\<lparr>custs := (custs st)(n := (custs st n)\<lparr>req_processed := True\<rparr>)\<rparr>)"

text \<open>
  The coroutine resumes when the condition event is processed; \<^verbatim>\<open>req in result\<close> holds
  exactly if the request event has been processed by then.
\<close>

definition customer_served :: "config \<Rightarrow> (nat \<Rightarrow> rat) \<Rightarrow> nat \<Rightarrow> state \<Rightarrow> error + state" where
  "customer_served cfg draws n st =
     (let wait_time = now st - arrival_time (custs st n);
          st1 = st\<lparr>waiting_times := waiting_times st @ [wait_time]\<rparr>
      in case expovariate draws (SERVICE_TIME cfg) st1 of
           Inl e \<Rightarrow> Inl e
         | Inr (busy, st2) \<Rightarrow>
             (let st3 = st2\<lparr>total_time_tellers_busy := total_time_tellers_busy st2 + busy\<rparr>
              in case expovariate draws (SERVICE_TIME cfg) st3 of
                   Inl e \<Rightarrow> Inl e
                 | Inr (service, st4) \<Rightarrow>
                     timeout (ServiceEv n) service
                       (st4\<lparr>custs := (custs st4)(n := (custs st4 n)\<lparr>phase := InService\<rparr>)\<rparr>)))"

definition customer_reneged :: "nat \<Rightarrow> state \<Rightarrow> error + state" where
  "customer_reneged n st =
     (case exit_with n (st\<lparr>reneged_customers := reneged_customers st + 1\<rparr>) of
        Inl e \<Rightarrow> Inl e
      | Inr st' \<Rightarrow> Inr (finish n st'))"

definition customer_resume :: "config \<Rightarrow> (nat \<Rightarrow> rat) \<Rightarrow> nat \<Rightarrow> state \<Rightarrow> error + state" where
  "customer_resume cfg draws n st =
     (if req_processed (custs st n) then customer_served cfg draws n st
      else customer_reneged n st)"

definition customer_done :: "nat \<Rightarrow> state \<Rightarrow> error + state" where
  "customer_done n st =
     (case exit_with n (st\<lparr>served_customers := served_customers st + 1\<rparr>) of
        Inl e \<Rightarrow> Inl e
      | Inr st' \<Rightarrow> Inr (finish n st'))"

subsection \<open>Generator and monitor\<close>

definition generator_wait :: "config \<Rightarrow> (nat \<Rightarrow> rat) \<Rightarrow> state \<Rightarrow> error + state" where
  "generator_wait cfg draws st =
     (case expovariate draws (INTER_ARRIVAL_TIME cfg) st of
        Inl e \<Rightarrow> Inl e
      | Inr (d, st') \<Rightarrow> timeout GenTimeout d st')"

definition customer_generator :: "config \<Rightarrow> (nat \<Rightarrow> rat) \<Rightarrow> state \<Rightarrow> error + state" where
  "customer_generator cfg draws st =
     (let n = gen_i st + 1
      in generator_wait cfg draws (schedule (InitCust n) URGENT 0 (st\<lparr>gen_i := n\<rparr>)))"

definition monitor_queue_length :: "state \<Rightarrow> error + state" where
  "monitor_queue_length st =
     timeout MonTimeout 1 (st\<lparr>queue_lengths := queue_lengths st @ [length (queue st)]\<rparr>)"

subsection \<open>Processing one event\<close>

fun callbacks :: "config \<Rightarrow> (nat \<Rightarrow> rat) \<Rightarrow> event \<Rightarrow> state \<Rightarrow> error + state" where
  "callbacks cfg draws InitGen st = generator_wait cfg draws st"
| "callbacks cfg draws GenTimeout st = customer_generator cfg draws st"
| "callbacks cfg draws InitMon st = monitor_queue_length st"
| "callbacks cfg draws MonTimeout st = monitor_queue_length st"
| "callbacks cfg draws (InitCust n) st = customer_start cfg n st"
| "callbacks cfg draws (ReqEv n) st = Inr (request_processed n st)"
| "callbacks cfg draws (PatienceEv n) st = Inr (cond_check n st)"
| "callbacks cfg draws (CondEv n) st = customer_resume cfg draws n st"
| "callbacks cfg draws (ServiceEv n) st = customer_done n st"
| "callbacks cfg draws (ReleaseEv n) st = Inr (trigger_put cfg st)"
| "callbacks cfg draws (ProcEnd n) st = Inr st"
| "callbacks cfg draws Until st = Inr st"

text \<open>
  One turn of the loop of \<^verbatim>\<open>env.run\<close>: the least entry is popped and the clock set to
  its time.  The flag of the result says that the run is over (the stop event was
  popped, or the queue is empty).
\<close>

definition step :: "config \<Rightarrow> (nat \<Rightarrow> rat) \<Rightarrow> state \<Rightarrow> error + (bool \<times> state)" where
  "step cfg draws st =
     (case evq st of
        [] \<Rightarrow> Inr (True, st)
      | (t, p, e, ev) # rest \<Rightarrow>
          (let st1 = st\<lparr>now := t, evq := rest\<rparr>
           in if ev = Until then Inr (True, st1)
              else case callbacks cfg draws ev st1 of
                     Inl err \<Rightarrow> Inl err
                   | Inr st2 \<Rightarrow> Inr (False, st2)))"

subsection \<open>A run\<close>

text \<open>
  \<^verbatim>\<open>run_simulation\<close> resets the counters, builds environment and resource (a capacity
  that is not positive is rejected), starts generator and monitor, and runs until the
  horizon (which must lie after time 0).  \<open>g\<close> is the number of draws consumed before
  the run.
\<close>

definition init_state :: "config \<Rightarrow> nat \<Rightarrow> error + state" where
  "init_state cfg g =
     (if NUM_TELLERS cfg = 0 then Inl ValueError
      else if SIMULATION_TIME cfg \<le> 0 then Inl ValueError
      else Inr (schedule Until URGENT (SIMULATION_TIME cfg)
             (schedule InitMon URGENT 0
               (schedule InitGen URGENT 0
                  \<lparr>now = 0, eid = 0, evq = [], users = [], queue = [], rng = g, gen_i = 0,
                   custs = (\<lambda>_. new_cust), balked_customers = 0, reneged_customers = 0,
                   served_customers = 0, waiting_times = [], queue_lengths = [],
                   total_time_tellers_busy = 0\<rparr>))))"

text \<open>
  The loop may run forever (inter-arrival draws of 0 keep the clock at one instant), so
  it takes fuel: \<open>Inr None\<close> says that the fuel ran out before the run ended.
\<close>

fun run_loop :: "config \<Rightarrow> (nat \<Rightarrow> rat) \<Rightarrow> nat \<Rightarrow> state \<Rightarrow> error + state option" where
  "run_loop cfg draws 0 st = Inr None"
| "run_loop cfg draws (Suc fuel) st =
     (case step cfg draws st of
        Inl err \<Rightarrow> Inl err
      | Inr (True, st') \<Rightarrow> Inr (Some st')
      | Inr (False, st') \<Rightarrow> run_loop cfg draws fuel st')"

text \<open>The state after \<open>k\<close> events of the run, if the run gets that far.\<close>

fun after_events :: "config \<Rightarrow> (nat \<Rightarrow> rat) \<Rightarrow> nat \<Rightarrow> state \<Rightarrow> state option" where
  "after_events cfg draws 0 st = Some st"
| "after_events cfg draws (Suc k) st =
     (case step cfg draws st of
        Inr (False, st') \<Rightarrow> after_events cfg draws k st'
      | _ \<Rightarrow> None)"

definition during_run :: "config \<Rightarrow> (nat \<Rightarrow> rat) \<Rightarrow> nat \<Rightarrow> nat \<Rightarrow> state option" where
  "during_run cfg draws g k =
     (case init_state cfg g of Inl _ \<Rightarrow> None | Inr st \<Rightarrow> after_events cfg draws k st)"

text \<open>What a run leaves in the global variables.\<close>

record run_result =
  served :: nat
  balked :: nat
  reneged :: nat
  wait_times :: "rat list"
  queue_samples :: "nat list"
  busy_time :: rat

definition result_of :: "state \<Rightarrow> run_result" where
  "result_of st =
     \<lparr>served = served_customers st, balked = balked_customers st,
      reneged = reneged_customers st, wait_times = waiting_times st,
      queue_samples = queue_lengths st, busy_time = total_time_tellers_busy st\<rparr>"

definition final_state :: "config \<Rightarrow> (nat \<Rightarrow> rat) \<Rightarrow> nat \<Rightarrow> nat \<Rightarrow> error + state option" where
  "final_state cfg draws g fuel =
     (case init_state cfg g of Inl e \<Rightarrow> Inl e | Inr st \<Rightarrow> run_loop cfg draws fuel st)"

text \<open>The result of a run, together with the number of draws consumed after it.\<close>

definition run_simulation ::
  "config \<Rightarrow> (nat \<Rightarrow> rat) \<Rightarrow> nat \<Rightarrow> nat \<Rightarrow> error + (run_result \<times> nat) option" where
  "run_simulation cfg draws g fuel =
     (case final_state cfg draws g fuel of
        Inl e \<Rightarrow> Inl e
      | Inr None \<Rightarrow> Inr None
      | Inr (Some st) \<Rightarrow> Inr (Some (result_of st, rng st)))"

subsection \<open>The metrics computed after each run\<close>

definition throughput :: "config \<Rightarrow> run_result \<Rightarrow> rat" where
  "throughput cfg r = of_nat (served r) / SIMULATION_TIME cfg"

definition avg_waiting_time :: "run_result \<Rightarrow> rat" where
  "avg_waiting_time r =
     (if wait_times r \<noteq> [] then sum_list (wait_times r) / of_nat (length (wait_times r)) else 0)"

definition avg_queue_length :: "run_result \<Rightarrow> rat" where
  "avg_queue_length r =
     (if queue_samples r \<noteq> []
      then of_nat (sum_list (queue_samples r)) / of_nat (length (queue_samples r)) else 0)"

definition server_utilization :: "config \<Rightarrow> run_result \<Rightarrow> rat" where
  "server_utilization cfg r = busy_time r / (of_nat (NUM_TELLERS cfg) * SIMULATION_TIME cfg)"

section \<open>Notions used in the properties\<close>

fun event_of :: "entry \<Rightarrow> event" where
  "event_of (t, p, e, ev) = ev"

text \<open>The number of queued events that satisfy \<open>P\<close>.\<close>

definition pending :: "(event \<Rightarrow> bool) \<Rightarrow> state \<Rightarrow> nat" where
  "pending P st = length (filter (\<lambda>x. P (event_of x)) (evq st))"

fun is_service :: "event \<Rightarrow> bool" where
  "is_service (ServiceEv n) = True"
| "is_service _ = False"

definition queue_bounded :: "config \<Rightarrow> state \<Rightarrow> bool" where
  "queue_bounded cfg st \<longleftrightarrow>
     length (queue st) \<le> MAX_QUEUE_LENGTH cfg \<and>
     list_all (\<lambda>x. x \<le> MAX_QUEUE_LENGTH cfg) (queue_lengths st)"

fun time_of :: "entry \<Rightarrow> rat" where
  "time_of (t, p, e, ev) = t"

fun eid_of :: "entry \<Rightarrow> nat" where
  "eid_of (t, p, e, ev) = e"

fun is_mon :: "event \<Rightarrow> bool" where
  "is_mon InitMon = True"
| "is_mon MonTimeout = True"
| "is_mon _ = False"

definition queue_ok :: "config \<Rightarrow> state \<Rightarrow> bool" where
  "queue_ok cfg st \<longleftrightarrow>
     sorted_wrt key_less (evq st) \<and>
     (\<forall>x \<in> set (evq st). eid_of x < eid st \<and> now st \<le> time_of x \<and>
        (eid_of x < 2 \<longrightarrow> time_of x = 0) \<and>
        (event_of x = Until \<longrightarrow> x = (SIMULATION_TIME cfg, URGENT, 2, Until))) \<and>
     (SIMULATION_TIME cfg, URGENT, 2, Until) \<in> set (evq st) \<and>
     0 \<le> now st \<and> now st < SIMULATION_TIME cfg"

definition monitor_ok :: "state \<Rightarrow> bool" where
  "monitor_ok st \<longleftrightarrow>
     pending is_mon st = 1 \<and>
     (\<forall>x \<in> set (evq st).
        (event_of x = InitMon \<longrightarrow> time_of x = 0 \<and> queue_lengths st = []) \<and>
        (event_of x = MonTimeout \<longrightarrow>
           time_of x = of_nat (length (queue_lengths st)) \<and> queue_lengths st \<noteq> [])) \<and>
     (queue_lengths st \<noteq> [] \<longrightarrow> of_nat (length (queue_lengths st)) - 1 \<le> now st)"

text \<open>
  The invariant that ties the record of a customer to the events of that customer in the
  queue.  \<open>c\<close> counts the queued events; it is a parameter so that the event just popped
  can be counted in.
\<close>

definition cnt :: "state \<Rightarrow> event \<Rightarrow> nat" where
  "cnt st ev = pending (\<lambda>x. x = ev) st"

definition cust_ok_c :: "(event \<Rightarrow> nat) \<Rightarrow> state \<Rightarrow> nat \<Rightarrow> bool" where
  "cust_ok_c c st n \<longleftrightarrow>
     (case phase (custs st n) of
        NotStarted \<Rightarrow>
          c (ReqEv n) = 0 \<and> c (PatienceEv n) = 0 \<and> c (CondEv n) = 0 \<and> c (ServiceEv n) = 0 \<and>
          n \<notin> set (queue st) \<and> n \<notin> set (users st) \<and>
          c (InitCust n) = (if 1 \<le> n \<and> n \<le> gen_i st then 1 else 0)
      | AtRace \<Rightarrow>
          1 \<le> n \<and> n \<le> gen_i st \<and> c (InitCust n) = 0 \<and> c (ServiceEv n) = 0 \<and>
          c (CondEv n) = (if cond_triggered (custs st n) then 1 else 0) \<and>
          (\<not> cond_triggered (custs st n) \<longrightarrow> c (PatienceEv n) = 1) \<and>
          c (ReqEv n) =
            (if req_triggered (custs st n) \<and> \<not> req_processed (custs st n) then 1 else 0) \<and>
          (n \<in> set (queue st) \<longleftrightarrow> \<not> req_triggered (custs st n)) \<and>
          (n \<in> set (users st) \<longleftrightarrow> req_triggered (custs st n)) \<and>
          (req_processed (custs st n) \<longrightarrow>
             req_triggered (custs st n) \<and> cond_triggered (custs st n))
      | InService \<Rightarrow>
          1 \<le> n \<and> n \<le> gen_i st \<and> c (InitCust n) = 0 \<and> c (CondEv n) = 0 \<and>
          c (ServiceEv n) = 1 \<and> c (ReqEv n) = 0 \<and>
          cond_triggered (custs st n) \<and> req_triggered (custs st n) \<and>
          req_processed (custs st n) \<and> n \<in> set (users st) \<and> n \<notin> set (queue st)
      | Finished \<Rightarrow>
          1 \<le> n \<and> n \<le> gen_i st \<and> c (InitCust n) = 0 \<and> c (CondEv n) = 0 \<and>
          c (ServiceEv n) = 0 \<and> n \<notin> set (queue st) \<and> n \<notin> set (users st) \<and>
          (cond_triggered (custs st n) \<or> (c (PatienceEv n) = 0 \<and> c (ReqEv n) = 0)))"

definition wf_c :: "(event \<Rightarrow> nat) \<Rightarrow> state \<Rightarrow> bool" where
  "wf_c c st \<longleftrightarrow> (\<forall>n. cust_ok_c c st n) \<and> distinct (queue st) \<and> distinct (users st)"

definition wf :: "state \<Rightarrow> bool" where
  "wf st \<longleftrightarrow> wf_c (cnt st) st"

text \<open>
  Customers are numbered \<open>1, ..., gen_i\<close>.  A customer has left when its process has
  ended; it is in the bank while its process is suspended at the race or at the service
  timeout.
\<close>

definition left_count :: "state \<Rightarrow> nat" where
  "left_count st =
     length (filter (\<lambda>n. phase (custs st n) = Finished) [1..<Suc (gen_i st)])"

definition in_bank :: "state \<Rightarrow> nat list" where
  "in_bank st =
     filter (\<lambda>n. phase (custs st n) = AtRace \<or> phase (custs st n) = InService)
       [1..<Suc (gen_i st)]"

definition accounted :: "state \<Rightarrow> bool" where
  "accounted st \<longleftrightarrow>
     served_customers st + balked_customers st + reneged_customers st = left_count st"

fun is_init :: "event \<Rightarrow> bool" where
  "is_init (InitCust n) = True"
| "is_init _ = False"

definition inits_early :: "config \<Rightarrow> state \<Rightarrow> bool" where
  "inits_early cfg st \<longleftrightarrow>
     (\<forall>x \<in> set (evq st). is_init (event_of x) \<longrightarrow> time_of x < SIMULATION_TIME cfg)"

text \<open>
  As long as no customer has been served no teller has come back, so every grant was
  made on arrival.  For a customer at the race: a request that is granted and whose event
  is still queued stands at the arrival time and before the patience timeout; once the
  request event is processed, the resumption stands at the arrival time; and a customer
  whose timeout triggered the race has not been granted a teller.
\<close>

definition race_ok_c :: "entry set \<Rightarrow> nat \<Rightarrow> cust \<Rightarrow> bool" where
  "race_ok_c Q n c \<longleftrightarrow>
     (phase c = AtRace \<longrightarrow>
        (req_triggered c \<and> \<not> req_processed c \<longrightarrow>
           \<not> cond_triggered c \<and>
           (\<forall>x \<in> Q. event_of x = ReqEv n \<longrightarrow>
              time_of x = arrival_time c \<and>
              (\<forall>y \<in> Q. event_of y = PatienceEv n \<longrightarrow> key_less x y))) \<and>
        (req_processed c \<longrightarrow>
           (\<forall>x \<in> Q. event_of x = CondEv n \<longrightarrow> time_of x = arrival_time c)) \<and>
        (cond_triggered c \<and> \<not> req_processed c \<longrightarrow> \<not> req_triggered c))"

definition unserved_ok :: "config \<Rightarrow> state \<Rightarrow> bool" where
  "unserved_ok cfg st \<longleftrightarrow>
     (\<forall>w \<in> set (waiting_times st). w = 0) \<and>
     (queue st \<noteq> [] \<longrightarrow> NUM_TELLERS cfg \<le> length (users st)) \<and>
     (\<forall>n. race_ok_c (set (evq st)) n (custs st n))"

subsection \<open>Concrete random streams\<close>

text \<open>
  \<open>stream_a\<close>: the first customer arrives at time 1 and the second would arrive at time
  201; the first customer's two service draws are 50 and 2; every later draw is 500.
\<close>

definition stream_a :: "nat \<Rightarrow> rat" where
  "stream_a k = (if k = 0 then 1 else if k = 1 then 200 else if k = 2 then 50
                 else if k = 3 then 2 else 500)"

text \<open>\<open>stream_b\<close>: one customer arrives at time 1; every other draw is 250.\<close>

definition stream_b :: "nat \<Rightarrow> rat" where
  "stream_b k = (if k = 0 then 1 else 250)"

text \<open>
  \<open>stream_c\<close>: six customers arrive at times 0.1, ..., 0.6 and the next one after the
  horizon; the two customers that are granted a teller hold it for 1000.
\<close>

definition stream_c :: "nat \<Rightarrow> rat" where
  "stream_c k = (if k = 3 \<or> k = 6 then 1000 else if k \<le> 9 then 1 / 10 else 1000)"

text \<open>
  \<open>stream_d\<close>: as \<open>stream_a\<close>, but the first customer's two service draws are 250
  and 2.
\<close>

definition stream_d :: "nat \<Rightarrow> rat" where
  "stream_d k = (if k = 0 then 1 else if k = 1 then 200 else if k = 2 then 250
                 else if k = 3 then 2 else 500)"


section \<open>Basic facts about the model\<close>

lemmas ops_defs = timeout_def expovariate_def trigger_put_def request_def
  cancel_def release_def exit_with_def finish_def customer_start_def cond_check_def
  request_processed_def customer_served_def customer_reneged_def customer_resume_def
  customer_done_def generator_wait_def customer_generator_def monitor_queue_length_def

lemmas ops_defs' = timeout_def expovariate_def request_def
  cancel_def release_def exit_with_def finish_def customer_start_def cond_check_def
  request_processed_def customer_served_def customer_reneged_def customer_resume_def
  customer_done_def generator_wait_def customer_generator_def monitor_queue_length_def

lemma schedule_fields [simp]:
  "now (schedule ev p dl st) = now st"
  "users (schedule ev p dl st) = users st"
  "queue (schedule ev p dl st) = queue st"
  "rng (schedule ev p dl st) = rng st"
  "gen_i (schedule ev p dl st) = gen_i st"
  "custs (schedule ev p dl st) = custs st"
  "balked_customers (schedule ev p dl st) = balked_customers st"
  "reneged_customers (schedule ev p dl st) = reneged_customers st"
  "served_customers (schedule ev p dl st) = served_customers st"
  "waiting_times (schedule ev p dl st) = waiting_times st"
  "queue_lengths (schedule ev p dl st) = queue_lengths st"
  "total_time_tellers_busy (schedule ev p dl st) = total_time_tellers_busy st"
  "eid (schedule ev p dl st) = eid st + 1"
  "evq (schedule ev p dl st) = heappush (now st + dl, p, eid st, ev) (evq st)"
  by (simp_all add: schedule_def)

lemma filter_heappush:
  "length (filter Q (heappush x q)) = (if Q x then 1 else 0) + length (filter Q q)"
  by (induction q) auto

lemma set_heappush [simp]: "set (heappush x q) = insert x (set q)"
  by (induction q) auto

lemma pending_schedule [simp]:
  "pending P (schedule ev p dl st) = (if P ev then 1 else 0) + pending P st"
  by (simp add: pending_def filter_heappush)

lemma pending_upd [simp]:
  "pending P (st\<lparr>users := a\<rparr>) = pending P st"
  "pending P (st\<lparr>queue := b\<rparr>) = pending P st"
  "pending P (st\<lparr>rng := c\<rparr>) = pending P st"
  "pending P (st\<lparr>gen_i := d\<rparr>) = pending P st"
  "pending P (st\<lparr>custs := e\<rparr>) = pending P st"
  "pending P (st\<lparr>balked_customers := f\<rparr>) = pending P st"
  "pending P (st\<lparr>reneged_customers := g\<rparr>) = pending P st"
  "pending P (st\<lparr>served_customers := h\<rparr>) = pending P st"
  "pending P (st\<lparr>waiting_times := i\<rparr>) = pending P st"
  "pending P (st\<lparr>queue_lengths := j\<rparr>) = pending P st"
  "pending P (st\<lparr>total_time_tellers_busy := k\<rparr>) = pending P st"
  "pending P (st\<lparr>now := l\<rparr>) = pending P st"
  by (simp_all add: pending_def)

text \<open>The three ways a turn of the loop can go.\<close>

lemma step_cases:
  assumes "step cfg d st = Inr (b, st')"
  obtains (empty) "evq st = []" "b" "st' = st"
  | (stop) t p e rest where "evq st = (t, p, e, Until) # rest" "b"
      "st' = st\<lparr>now := t, evq := rest\<rparr>"
  | (event) t p e ev rest where "evq st = (t, p, e, ev) # rest" "ev \<noteq> Until" "\<not> b"
      "callbacks cfg d ev (st\<lparr>now := t, evq := rest\<rparr>) = Inr st'"
  using assms
  by (auto simp: step_def Let_def split: list.splits if_splits sum.splits)

lemma after_events_invariant:
  assumes "\<And>s b s'. I s \<Longrightarrow> step cfg d s = Inr (b, s') \<Longrightarrow> I s'"
    and "I st" and "after_events cfg d k st = Some st'"
  shows "I st'"
  using assms(2,3)
proof (induction k arbitrary: st)
  case 0
  then show ?case by simp
next
  case (Suc k)
  then show ?case
    by (auto split: sum.splits prod.splits bool.splits if_splits intro: assms(1))
qed

lemma run_loop_invariant:
  assumes "\<And>s b s'. I s \<Longrightarrow> step cfg d s = Inr (b, s') \<Longrightarrow> I s'"
    and "I st" and "run_loop cfg d fuel st = Inr (Some st')"
  shows "I st'"
  using assms(2,3)
proof (induction fuel arbitrary: st)
  case 0
  then show ?case by simp
next
  case (Suc k)
  then show ?case
    by (auto split: sum.splits prod.splits bool.splits if_splits intro: assms(1))
qed

text \<open>A property of the initial state that every step keeps holds throughout the run.\<close>

lemma run_invariant:
  assumes step: "\<And>s b s'. I s \<Longrightarrow> step cfg d s = Inr (b, s') \<Longrightarrow> I s'"
    and init: "\<And>s. init_state cfg g = Inr s \<Longrightarrow> I s"
    and run: "during_run cfg d g k = Some st \<or> final_state cfg d g fuel = Inr (Some st)"
  shows "I st"
  using run
proof
  assume "during_run cfg d g k = Some st"
  then obtain s0 where "init_state cfg g = Inr s0" "after_events cfg d k s0 = Some st"
    by (auto simp: during_run_def split: sum.splits)
  then show ?thesis using after_events_invariant [of I cfg d s0 k st] step init by blast
next
  assume "final_state cfg d g fuel = Inr (Some st)"
  then obtain s0 where "init_state cfg g = Inr s0" "run_loop cfg d fuel s0 = Inr (Some st)"
    by (auto simp: final_state_def split: sum.splits)
  then show ?thesis using run_loop_invariant [of I cfg d s0 fuel st] step init by blast
qed

lemma final_invariant:
  assumes "final_state cfg d g fuel = Inr (Some st)"
    and "\<And>s. init_state cfg g = Inr s \<Longrightarrow> I s"
    and "\<And>s b s'. I s \<Longrightarrow> step cfg d s = Inr (b, s') \<Longrightarrow> I s'"
  shows "I st"
  using run_invariant [of I cfg d g 0 st fuel] assms by blast

lemma during_invariant:
  assumes "during_run cfg d g k = Some st"
    and "\<And>s. init_state cfg g = Inr s \<Longrightarrow> I s"
    and "\<And>s b s'. I s \<Longrightarrow> step cfg d s = Inr (b, s') \<Longrightarrow> I s'"
  shows "I st"
  using run_invariant [of I cfg d g k st 0] assms by blast

lemma init_state_fields:
  assumes "init_state cfg g = Inr s"
  shows "users s = []" "queue s = []" "waiting_times s = []" "queue_lengths s = []"
    "served_customers s = 0" "balked_customers s = 0" "reneged_customers s = 0"
    "total_time_tellers_busy s = 0" "gen_i s = 0" "now s = 0" "custs s = (\<lambda>_. new_cust)"
    "rng s = g" "eid s = 3"
    "evq s = [(0, URGENT, 0, InitGen), (0, URGENT, 1, InitMon),
              (SIMULATION_TIME cfg, URGENT, 2, Until)]"
    "0 < NUM_TELLERS cfg" "0 < SIMULATION_TIME cfg"
  using assms by (auto simp: init_state_def schedule_def URGENT_def split: if_splits)

lemma run_simulation_final:
  assumes "run_simulation cfg d g fuel = Inr (Some (r, g'))"
  obtains st where "final_state cfg d g fuel = Inr (Some st)" "r = result_of st" "g' = rng st"
  using assms by (auto simp: run_simulation_def split: sum.splits option.splits)

lemma final_state_init:
  assumes "final_state cfg d g fuel = Inr (Some st)"
  obtains s0 where "init_state cfg g = Inr s0"
  using assms by (auto simp: final_state_def split: sum.splits)

subsection \<open>Evaluated runs\<close>

lemma during_stream_a_7:
  "case during_run source_config stream_a 0 7 of
     Some st \<Rightarrow> now st = 1 \<and> users st = [1] \<and> waiting_times st = [0] \<and>
       total_time_tellers_busy st = 50 \<and>
       filter (\<lambda>x. is_service (event_of x)) (evq st) = [(3, NORMAL, 11, ServiceEv 1)]
   | None \<Rightarrow> False"
  by code_simp

lemma final_stream_a:
  "case final_state source_config stream_a 0 112 of
     Inr (Some st) \<Rightarrow>
       result_of st = \<lparr>served = 1, balked = 0, reneged = 0, wait_times = [0],
                       queue_samples = replicate 100 0, busy_time = 50\<rparr> \<and>
       rng st = 4 \<and> gen_i st = 1 \<and> pending is_service st = 0 \<and> users st = [] \<and>
       now st = 100
   | _ \<Rightarrow> False"
  by code_simp

lemma final_stream_b:
  "case final_state source_config stream_b 0 107 of
     Inr (Some st) \<Rightarrow>
       result_of st = \<lparr>served = 0, balked = 0, reneged = 0, wait_times = [0],
                       queue_samples = replicate 100 0, busy_time = 250\<rparr> \<and>
       rng st = 4 \<and> gen_i st = 1 \<and> pending is_service st = 1 \<and> users st = [1] \<and>
       now st = 100
   | _ \<Rightarrow> False"
  by code_simp

lemma during_stream_c_17:
  "case during_run source_config stream_c 0 17 of
     Some st \<Rightarrow> queue st = [3, 4, 5] \<and> balked_customers st = 0 \<and>
        (case evq st of (t, p, e, ev) # rest \<Rightarrow> ev = InitCust 6 | _ \<Rightarrow> False)
   | _ \<Rightarrow> False"
  by code_simp

lemma run_stream_a:
  "run_simulation source_config stream_a 0 112 =
     Inr (Some (\<lparr>served = 1, balked = 0, reneged = 0, wait_times = [0],
                 queue_samples = replicate 100 0, busy_time = 50\<rparr>, 4))"
  using final_stream_a by (auto simp: run_simulation_def split: sum.splits option.splits)

lemma run_stream_b:
  "run_simulation source_config stream_b 0 107 =
     Inr (Some (\<lparr>served = 0, balked = 0, reneged = 0, wait_times = [0],
                 queue_samples = replicate 100 0, busy_time = 250\<rparr>, 4))"
  using final_stream_b by (auto simp: run_simulation_def split: sum.splits option.splits)

lemma during_stream_d_7:
  "case during_run source_config stream_d 0 7 of
     Some st \<Rightarrow> now st = 1 \<and> users st = [1] \<and> waiting_times st = [0] \<and>
       total_time_tellers_busy st = 250 \<and>
       filter (\<lambda>x. is_service (event_of x)) (evq st) = [(3, NORMAL, 11, ServiceEv 1)]
   | None \<Rightarrow> False"
  by code_simp

lemma final_stream_d:
  "case final_state source_config stream_d 0 112 of
     Inr (Some st) \<Rightarrow>
       result_of st = \<lparr>served = 1, balked = 0, reneged = 0, wait_times = [0],
                       queue_samples = replicate 100 0, busy_time = 250\<rparr> \<and>
       rng st = 4 \<and> gen_i st = 1 \<and> pending is_service st = 0 \<and> users st = [] \<and>
       now st = 100
   | _ \<Rightarrow> False"
  by code_simp

lemma run_stream_d:
  "run_simulation source_config stream_d 0 112 =
     Inr (Some (\<lparr>served = 1, balked = 0, reneged = 0, wait_times = [0],
                 queue_samples = replicate 100 0, busy_time = 250\<rparr>, 4))"
  using final_stream_d by (auto simp: run_simulation_def split: sum.splits option.splits)

lemma stream_a_nonneg: "0 \<le> stream_a k"
  by (simp add: stream_a_def)

lemma stream_b_nonneg: "0 \<le> stream_b k"
  by (simp add: stream_b_def)

section \<open>The busy-time accumulated for a customer and the time the teller is held\<close>

text \<open>
  Claim C1 says that the duration a served customer holds the teller for is the value
  added to the busy-time.  The program draws twice: the first draw is added to
  \<open>total_time_tellers_busy\<close>, the second is the delay of the service timeout.  With
  \<open>stream_a\<close> the first customer is granted a teller at time 1; the busy-time becomes 50,
  but the service ends at time 3, after 2 time units.  At the end of the run one customer
  was served and the busy-time is 50, not 2.
\<close>

theorem C1_busy_time_is_another_draw:
  "(case during_run source_config stream_a 0 7 of
      Some st \<Rightarrow> now st = 1 \<and> total_time_tellers_busy st = 50 \<and>
        filter (\<lambda>x. is_service (event_of x)) (evq st) = [(3, NORMAL, 11, ServiceEv 1)]
    | None \<Rightarrow> False) \<and>
   (case run_simulation source_config stream_a 0 112 of
      Inr (Some (r, g)) \<Rightarrow> served r = 1 \<and> busy_time r = 50
    | _ \<Rightarrow> False)"
proof -
  have "case run_simulation source_config stream_a 0 112 of
      Inr (Some (r, g)) \<Rightarrow> served r = 1 \<and> busy_time r = 50
    | _ \<Rightarrow> False"
    by (simp add: run_stream_a)
  moreover have "case during_run source_config stream_a 0 7 of
      Some st \<Rightarrow> now st = 1 \<and> total_time_tellers_busy st = 50 \<and>
        filter (\<lambda>x. is_service (event_of x)) (evq st) = [(3, NORMAL, 11, ServiceEv 1)]
    | None \<Rightarrow> False"
    using during_stream_a_7 by (auto split: option.splits)
  ultimately show ?thesis by blast
qed

section \<open>Two runs with the same configuration and seed\<close>

subsection \<open>More fuel does not change the result of a run\<close>

lemma run_loop_more_fuel:
  "run_loop cfg d fuel st = Inr (Some s) \<Longrightarrow> run_loop cfg d (fuel + k) st = Inr (Some s)"
proof (induction fuel arbitrary: st)
  case 0
  then show ?case by simp
next
  case (Suc fuel)
  then show ?case
    by (auto split: sum.splits prod.splits bool.splits if_splits)
qed

lemma run_simulation_more_fuel:
  assumes "run_simulation cfg d g fuel = Inr (Some x)"
  shows "run_simulation cfg d g (fuel + k) = Inr (Some x)"
proof -
  from assms obtain s0 st where s: "init_state cfg g = Inr s0"
    "run_loop cfg d fuel s0 = Inr (Some st)" "x = (result_of st, rng st)"
    by (auto simp: run_simulation_def final_state_def split: sum.splits option.splits)
  from run_loop_more_fuel [OF s(2), of k] s(1,3) show ?thesis
    by (simp add: run_simulation_def final_state_def)
qed

subsection \<open>The seed constant is never read\<close>

lemma trigger_put_seed: "trigger_put (cfg\<lparr>RANDOM_SEED := s\<rparr>) st = trigger_put cfg st"
  by (simp add: trigger_put_def split: list.splits)

lemma callbacks_seed:
  "callbacks (cfg\<lparr>RANDOM_SEED := s\<rparr>) d ev st = callbacks cfg d ev st"
  by (cases ev) (simp_all add: ops_defs' trigger_put_seed Let_def)

lemma step_seed: "step (cfg\<lparr>RANDOM_SEED := s\<rparr>) d st = step cfg d st"
  by (simp add: step_def callbacks_seed Let_def split: list.splits prod.splits)

lemma run_loop_seed: "run_loop (cfg\<lparr>RANDOM_SEED := s\<rparr>) d fuel st = run_loop cfg d fuel st"
  by (induction fuel arbitrary: st)
     (simp_all add: step_seed split: sum.splits prod.splits bool.splits)

lemma run_simulation_seed:
  "run_simulation (cfg\<lparr>RANDOM_SEED := s\<rparr>) d g fuel = run_simulation cfg d g fuel"
  by (simp add: run_simulation_def final_state_def init_state_def run_loop_seed
           split: sum.splits)

text \<open>
  Claim C2 says that two runs with the same configuration and the same random seed give
  identical results.  The program defines \<open>RANDOM_SEED\<close> and never passes it to the
  generator: a run is the same whatever the value of \<open>RANDOM_SEED\<close>, and what it
  yields follows the draws the unseeded generator delivers.  Two executions of the
  program with the same configuration and \<open>RANDOM_SEED = 10\<close>, one where the generator
  delivers \<open>stream_a\<close> and one where it delivers \<open>stream_b\<close>, differ already in the result
  of their first run.
\<close>

theorem C2_seed_is_never_used:
  "(\<forall>cfg s draws g fuel.
      run_simulation (cfg\<lparr>RANDOM_SEED := s\<rparr>) draws g fuel = run_simulation cfg draws g fuel) \<and>
   RANDOM_SEED source_config = 10 \<and>
   run_simulation source_config stream_a 0 112 =
     Inr (Some (\<lparr>served = 1, balked = 0, reneged = 0, wait_times = [0],
                 queue_samples = replicate 100 0, busy_time = 50\<rparr>, 4)) \<and>
   run_simulation source_config stream_b 0 112 =
     Inr (Some (\<lparr>served = 0, balked = 0, reneged = 0, wait_times = [0],
                 queue_samples = replicate 100 0, busy_time = 250\<rparr>, 4)) \<and>
   \<lparr>served = 1, balked = 0, reneged = 0, wait_times = [0],
     queue_samples = replicate 100 0, busy_time = 50\<rparr> \<noteq>
   \<lparr>served = 0, balked = 0, reneged = 0, wait_times = [0],
     queue_samples = replicate 100 0, busy_time = (250::rat)\<rparr>"
proof -
  have "run_simulation source_config stream_b 0 112 =
     Inr (Some (\<lparr>served = 0, balked = 0, reneged = 0, wait_times = [0],
                 queue_samples = replicate 100 0, busy_time = 250\<rparr>, 4))"
    using run_simulation_more_fuel [OF run_stream_b, of 5] by simp
  moreover have "RANDOM_SEED source_config = 10"
    by (simp add: source_config_def)
  ultimately show ?thesis
    by (simp add: run_simulation_seed run_stream_a)
qed

section \<open>Balking\<close>

text \<open>
  Claim C7: when a customer starts while the wait list holds \<open>MAX_QUEUE_LENGTH\<close> requests
  or more, the customer balks, whatever the random stream: the balked counter grows by
  one, no draw is consumed, the wait list and the holders are unchanged, the customer's
  process is finished, and the only event created is the termination event of that
  process (no request, no patience timeout).
\<close>

theorem C7_balk_at_threshold:
  assumes "evq st = (t, p, e, InitCust n) # rest"
    and "MAX_QUEUE_LENGTH cfg \<le> length (queue st)"
  shows "\<exists>st'. step cfg draws st = Inr (False, st') \<and>
           balked_customers st' = balked_customers st + 1 \<and>
           served_customers st' = served_customers st \<and>
           reneged_customers st' = reneged_customers st \<and>
           queue st' = queue st \<and> users st' = users st \<and> rng st' = rng st \<and>
           phase (custs st' n) = Finished \<and>
           set (map event_of (evq st')) = insert (ProcEnd n) (set (map event_of rest))"
  using assms by (simp add: step_def customer_start_def finish_def)

theorem C7_balk_at_threshold_witness:
  "\<exists>st st'. during_run source_config stream_c 0 17 = Some st \<and>
     queue st = [3, 4, 5] \<and> balked_customers st = 0 \<and>
     step source_config stream_c st = Inr (False, st') \<and>
     balked_customers st' = 1 \<and> queue st' = [3, 4, 5]"
proof -
  from during_stream_c_17 obtain st t p e rest
    where st: "during_run source_config stream_c 0 17 = Some st" "queue st = [3, 4, 5]"
      "balked_customers st = 0" "evq st = (t, p, e, InitCust 6) # rest"
    by (auto split: option.splits list.splits)
  have "MAX_QUEUE_LENGTH source_config \<le> length (queue st)"
    by (simp add: st(2) source_config_def)
  from C7_balk_at_threshold [OF st(4) this, of stream_c] st show ?thesis
    by auto
qed

section \<open>Held units\<close>

lemma users_callbacks:
  "callbacks cfg d ev st = Inr st' \<Longrightarrow> length (users st) \<le> NUM_TELLERS cfg
     \<Longrightarrow> length (users st') \<le> NUM_TELLERS cfg"
  by (cases ev)
     (auto simp: ops_defs Let_def length_remove1
           split: if_splits sum.splits list.splits prod.splits)

lemma users_step:
  "length (users st) \<le> NUM_TELLERS cfg \<Longrightarrow> step cfg d st = Inr (b, st')
     \<Longrightarrow> length (users st') \<le> NUM_TELLERS cfg"
  by (erule step_cases) (auto dest: users_callbacks)

text \<open>
  Claim C8: in every state of a run (after any number of events, and when the run has
  ended) the number of held units is between 0 and the capacity.
\<close>

theorem C8_held_within_capacity:
  assumes "during_run cfg draws g k = Some st \<or> final_state cfg draws g fuel = Inr (Some st)"
  shows "0 \<le> length (users st) \<and> length (users st) \<le> NUM_TELLERS cfg"
proof -
  have "length (users st) \<le> NUM_TELLERS cfg"
    by (rule run_invariant [where I = "\<lambda>s. length (users s) \<le> NUM_TELLERS cfg", OF _ _ assms])
       (auto intro: users_step simp: init_state_fields)
  then show ?thesis by simp
qed

theorem C8_held_within_capacity_witness:
  "\<exists>st. during_run source_config stream_a 0 7 = Some st \<and> users st = [1] \<and>
        length (users st) \<le> NUM_TELLERS source_config"
proof -
  from during_stream_a_7 obtain st
    where st: "during_run source_config stream_a 0 7 = Some st" "users st = [1]"
    by (auto split: option.splits)
  from C8_held_within_capacity [of source_config stream_a 0 7 st 0] st
  show ?thesis by blast
qed

section \<open>Recorded waits and served customers\<close>

lemma service_callbacks:
  "callbacks cfg d ev st = Inr st' \<Longrightarrow>
   length (waiting_times st') = served_customers st' + pending is_service st' \<longleftrightarrow>
   length (waiting_times st) =
     served_customers st + pending is_service st + (if is_service ev then 1 else 0)"
  by (cases ev)
     (auto simp: ops_defs Let_def split: if_splits sum.splits list.splits prod.splits)

lemma service_step:
  "length (waiting_times st) = served_customers st + pending is_service st \<Longrightarrow>
   step cfg d st = Inr (b, st') \<Longrightarrow>
   length (waiting_times st') = served_customers st' + pending is_service st'"
  apply (erule step_cases)
    apply simp
   apply (simp add: pending_def)
  apply (simp add: service_callbacks)
  apply (simp add: pending_def)
  done

lemma service_init:
  "init_state cfg g = Inr s \<Longrightarrow>
   length (waiting_times s) = served_customers s + pending is_service s"
  by (simp add: init_state_fields pending_def)

text \<open>
  Claim C10: a wait is recorded when the granted customer resumes, the served counter
  grows when the service timeout is processed; so at the end of a run the number of
  recorded waits is the served count plus the number of customers whose service timeout
  is still pending at the horizon, and the served count is at most the number of waits.
\<close>

theorem C10_served_le_waits:
  assumes "final_state cfg draws g fuel = Inr (Some st)"
  shows "length (waiting_times st) = served_customers st + pending is_service st \<and>
         served (result_of st) \<le> length (wait_times (result_of st))"
proof -
  have "length (waiting_times st) = served_customers st + pending is_service st"
    by (rule final_invariant
          [where I = "\<lambda>s. length (waiting_times s) = served_customers s + pending is_service s",
           OF assms])
       (erule service_init, erule service_step, assumption)
  then show ?thesis by (simp add: result_of_def)
qed

theorem C10_served_le_waits_witness:
  "\<exists>st. final_state source_config stream_b 0 107 = Inr (Some st) \<and>
     served_customers st = 0 \<and> pending is_service st = 1 \<and> length (waiting_times st) = 1 \<and>
     served (result_of st) \<le> length (wait_times (result_of st))"
proof -
  from final_stream_b obtain st
    where st: "final_state source_config stream_b 0 107 = Inr (Some st)"
      "pending is_service st = 1"
      "result_of st = \<lparr>served = 0, balked = 0, reneged = 0, wait_times = [0],
                       queue_samples = replicate 100 0, busy_time = 250\<rparr>"
    by (auto split: sum.splits option.splits)
  from st(3) have "served_customers st = 0" by (simp add: result_of_def)
  with C10_served_le_waits [OF st(1)] st show ?thesis by auto
qed

section \<open>Utilization\<close>

lemma busy_callbacks:
  "callbacks cfg d ev st = Inr st' \<Longrightarrow> \<forall>k. 0 \<le> d k \<Longrightarrow> 0 \<le> total_time_tellers_busy st
     \<Longrightarrow> 0 \<le> total_time_tellers_busy st'"
  by (cases ev)
     (auto simp: ops_defs Let_def split: if_splits sum.splits list.splits prod.splits)

lemma busy_step:
  "\<forall>k. 0 \<le> d k \<Longrightarrow> 0 \<le> total_time_tellers_busy st \<Longrightarrow> step cfg d st = Inr (b, st')
     \<Longrightarrow> 0 \<le> total_time_tellers_busy st'"
  by (erule step_cases) (auto dest: busy_callbacks)

text \<open>The busy-time, and with it the utilization, is never negative for non-negative draws.\<close>

lemma utilization_nonneg:
  assumes "\<forall>k. 0 \<le> draws k"
    and "run_simulation cfg draws g fuel = Inr (Some (r, g'))"
  shows "0 \<le> server_utilization cfg r"
proof -
  from assms(2) obtain st
    where st: "final_state cfg draws g fuel = Inr (Some st)" "r = result_of st"
    by (rule run_simulation_final)
  from st(1) obtain s0 where s0: "init_state cfg g = Inr s0"
    by (rule final_state_init)
  have "0 \<le> total_time_tellers_busy st"
    by (rule final_invariant [where I = "\<lambda>s. 0 \<le> total_time_tellers_busy s", OF st(1)])
       (simp add: init_state_fields, erule busy_step [OF assms(1)], assumption)
  moreover have "0 < of_nat (NUM_TELLERS cfg) * SIMULATION_TIME cfg"
    using init_state_fields(15,16) [OF s0] by simp
  ultimately show ?thesis
    using st(2) by (simp add: server_utilization_def result_of_def)
qed

text \<open>
  Claim C4 says that the utilization is the busy-time divided by capacity times
  \<open>SIMULATION_TIME\<close> and lies in \<open>[0, 1]\<close>.  The program divides as the claim says, but
  the busy-time it divides is not the time the tellers were held: it is the sum of the
  first of the two draws made for each service.  With \<open>stream_d\<close> the only customer of the
  run is granted a teller at time 1, the busy-time becomes 250, and the teller is held
  until time 3.  At the end of the run the tellers have been held for 2 of the 200 units
  of teller time, and the utilization is \<open>250 / 200\<close>, above 1.
\<close>

theorem C4_utilization_from_other_draw:
  "(case during_run source_config stream_d 0 7 of
      Some st \<Rightarrow> now st = 1 \<and> total_time_tellers_busy st = 250 \<and>
        filter (\<lambda>x. is_service (event_of x)) (evq st) = [(3, NORMAL, 11, ServiceEv 1)]
    | None \<Rightarrow> False) \<and>
   (case run_simulation source_config stream_d 0 112 of
      Inr (Some (r, g)) \<Rightarrow>
        served r = 1 \<and> busy_time r = 250 \<and>
        server_utilization source_config r = 5 / 4 \<and>
        \<not> server_utilization source_config r \<le> 1
    | _ \<Rightarrow> False)"
proof -
  have "case run_simulation source_config stream_d 0 112 of
      Inr (Some (r, g)) \<Rightarrow>
        served r = 1 \<and> busy_time r = 250 \<and>
        server_utilization source_config r = 5 / 4 \<and>
        \<not> server_utilization source_config r \<le> 1
    | _ \<Rightarrow> False"
  proof -
    have "server_utilization source_config
            \<lparr>served = 1, balked = 0, reneged = 0, wait_times = [0],
              queue_samples = replicate 100 0, busy_time = 250\<rparr> = 5 / 4"
      by (simp add: server_utilization_def source_config_def)
    then show ?thesis by (simp add: run_stream_d)
  qed
  moreover have "case during_run source_config stream_d 0 7 of
      Some st \<Rightarrow> now st = 1 \<and> total_time_tellers_busy st = 250 \<and>
        filter (\<lambda>x. is_service (event_of x)) (evq st) = [(3, NORMAL, 11, ServiceEv 1)]
    | None \<Rightarrow> False"
    using during_stream_d_7 by (auto split: option.splits)
  ultimately show ?thesis by blast
qed

section \<open>The event queue stays ordered\<close>

lemma key_less_trans: "key_less x y \<Longrightarrow> key_less y z \<Longrightarrow> key_less x z"
  by (cases x; cases y; cases z) auto

lemma key_less_total: "\<not> key_less x y \<Longrightarrow> eid_of x \<noteq> eid_of y \<Longrightarrow> key_less y x"
  by (cases x; cases y) auto

lemma key_less_time: "key_less x y \<Longrightarrow> time_of x \<le> time_of y"
  by (cases x; cases y) auto

lemma sorted_heappush:
  "sorted_wrt key_less q \<Longrightarrow> \<forall>y \<in> set q. eid_of y \<noteq> eid_of x \<Longrightarrow>
   sorted_wrt key_less (heappush x q)"
proof (induction q)
  case Nil
  then show ?case by simp
next
  case (Cons y ys)
  show ?case
  proof (cases "key_less x y")
    case True
    with Cons.prems show ?thesis by (auto intro: key_less_trans)
  next
    case False
    with Cons.prems have "key_less y x" by (auto intro: key_less_total)
    with False Cons show ?thesis by auto
  qed
qed

lemma queue_ok_upd [simp]:
  "queue_ok cfg (st\<lparr>users := a\<rparr>) = queue_ok cfg st"
  "queue_ok cfg (st\<lparr>queue := b\<rparr>) = queue_ok cfg st"
  "queue_ok cfg (st\<lparr>rng := c\<rparr>) = queue_ok cfg st"
  "queue_ok cfg (st\<lparr>gen_i := d\<rparr>) = queue_ok cfg st"
  "queue_ok cfg (st\<lparr>custs := e\<rparr>) = queue_ok cfg st"
  "queue_ok cfg (st\<lparr>balked_customers := f\<rparr>) = queue_ok cfg st"
  "queue_ok cfg (st\<lparr>reneged_customers := g\<rparr>) = queue_ok cfg st"
  "queue_ok cfg (st\<lparr>served_customers := h\<rparr>) = queue_ok cfg st"
  "queue_ok cfg (st\<lparr>waiting_times := i\<rparr>) = queue_ok cfg st"
  "queue_ok cfg (st\<lparr>queue_lengths := j\<rparr>) = queue_ok cfg st"
  "queue_ok cfg (st\<lparr>total_time_tellers_busy := k\<rparr>) = queue_ok cfg st"
  by (simp_all add: queue_ok_def)

lemma queue_ok_schedule:
  assumes "queue_ok cfg st" "0 \<le> dl" "ev \<noteq> Until"
  shows "queue_ok cfg (schedule ev p dl st)"
proof -
  from assms(1) have "(SIMULATION_TIME cfg, URGENT, 2, Until) \<in> set (evq st)"
    by (simp add: queue_ok_def)
  with assms(1) have "2 < eid st" by (fastforce simp: queue_ok_def)
  moreover have "sorted_wrt key_less (heappush (now st + dl, p, eid st, ev) (evq st))"
    using assms(1) by (intro sorted_heappush) (auto simp: queue_ok_def)
  ultimately show ?thesis
    using assms by (auto simp: queue_ok_def)
qed


lemma queue_ok_trigger_put: "queue_ok cfg st \<Longrightarrow> queue_ok cfg (trigger_put cfg st)"
  by (simp add: trigger_put_def queue_ok_schedule split: list.splits)

lemma queue_ok_timeout:
  "timeout ev dl st = Inr st' \<Longrightarrow> ev \<noteq> Until \<Longrightarrow> queue_ok cfg st \<Longrightarrow> queue_ok cfg st'"
  by (auto simp: timeout_def queue_ok_schedule split: if_splits)

lemma queue_ok_expovariate:
  "expovariate d m st = Inr (x, st') \<Longrightarrow> queue_ok cfg st \<Longrightarrow> queue_ok cfg st'"
  by (auto simp: expovariate_def split: if_splits)

lemma queue_ok_request: "queue_ok cfg st \<Longrightarrow> queue_ok cfg (request cfg n st)"
  by (simp add: request_def queue_ok_trigger_put)

lemma queue_ok_finish: "queue_ok cfg st \<Longrightarrow> queue_ok cfg (finish n st)"
  by (simp add: finish_def queue_ok_schedule)

lemma queue_ok_exit_with:
  "exit_with n st = Inr st' \<Longrightarrow> queue_ok cfg st \<Longrightarrow> queue_ok cfg st'"
  by (auto simp: exit_with_def cancel_def release_def queue_ok_schedule
           split: sum.splits if_splits)

lemma queue_ok_cond_check: "queue_ok cfg st \<Longrightarrow> queue_ok cfg (cond_check n st)"
  by (simp add: cond_check_def queue_ok_schedule)

lemma queue_ok_generator_wait:
  "generator_wait cfg d st = Inr st' \<Longrightarrow> queue_ok cfg st \<Longrightarrow> queue_ok cfg st'"
  by (auto simp: generator_wait_def split: sum.splits prod.splits
           dest!: queue_ok_expovariate [where cfg = cfg] elim: queue_ok_timeout)

lemma queue_ok_customer_served:
  "customer_served cfg d n st = Inr st' \<Longrightarrow> queue_ok cfg st \<Longrightarrow> queue_ok cfg st'"
  by (auto simp: customer_served_def Let_def expovariate_def
           split: sum.splits prod.splits if_splits elim!: queue_ok_timeout)

lemma queue_ok_callbacks:
  "callbacks cfg d ev st = Inr st' \<Longrightarrow> ev \<noteq> Until \<Longrightarrow> queue_ok cfg st \<Longrightarrow> queue_ok cfg st'"
proof (cases ev)
  case InitGen
  then show "callbacks cfg d ev st = Inr st' \<Longrightarrow> queue_ok cfg st \<Longrightarrow> queue_ok cfg st'"
    by (auto elim: queue_ok_generator_wait)
next
  case GenTimeout
  then show "callbacks cfg d ev st = Inr st' \<Longrightarrow> queue_ok cfg st \<Longrightarrow> queue_ok cfg st'"
    by (auto simp: customer_generator_def Let_def queue_ok_schedule
             elim!: queue_ok_generator_wait)
next
  case InitMon
  then show "callbacks cfg d ev st = Inr st' \<Longrightarrow> queue_ok cfg st \<Longrightarrow> queue_ok cfg st'"
    by (auto simp: monitor_queue_length_def elim!: queue_ok_timeout)
next
  case MonTimeout
  then show "callbacks cfg d ev st = Inr st' \<Longrightarrow> queue_ok cfg st \<Longrightarrow> queue_ok cfg st'"
    by (auto simp: monitor_queue_length_def elim!: queue_ok_timeout)
next
  case (InitCust n)
  then show "callbacks cfg d ev st = Inr st' \<Longrightarrow> queue_ok cfg st \<Longrightarrow> queue_ok cfg st'"
    by (auto simp: customer_start_def queue_ok_finish queue_ok_request
             split: if_splits elim!: queue_ok_timeout)
next
  case (ReqEv n)
  then show "callbacks cfg d ev st = Inr st' \<Longrightarrow> queue_ok cfg st \<Longrightarrow> queue_ok cfg st'"
    by (auto simp: request_processed_def queue_ok_cond_check)
next
  case (PatienceEv n)
  then show "callbacks cfg d ev st = Inr st' \<Longrightarrow> queue_ok cfg st \<Longrightarrow> queue_ok cfg st'"
    by (auto simp: queue_ok_cond_check)
next
  case (CondEv n)
  then show "callbacks cfg d ev st = Inr st' \<Longrightarrow> queue_ok cfg st \<Longrightarrow> queue_ok cfg st'"
    by (auto simp: customer_resume_def customer_reneged_def queue_ok_finish
             split: if_splits sum.splits
             elim: queue_ok_customer_served dest!: queue_ok_exit_with [where cfg = cfg])
next
  case (ServiceEv n)
  then show "callbacks cfg d ev st = Inr st' \<Longrightarrow> queue_ok cfg st \<Longrightarrow> queue_ok cfg st'"
    by (auto simp: customer_done_def queue_ok_finish split: sum.splits
             dest!: queue_ok_exit_with [where cfg = cfg])
next
  case (ReleaseEv n)
  then show "callbacks cfg d ev st = Inr st' \<Longrightarrow> queue_ok cfg st \<Longrightarrow> queue_ok cfg st'"
    by (auto simp: queue_ok_trigger_put)
next
  case (ProcEnd n)
  then show "callbacks cfg d ev st = Inr st' \<Longrightarrow> queue_ok cfg st \<Longrightarrow> queue_ok cfg st'"
    by auto
next
  case Until
  then show "ev \<noteq> Until \<Longrightarrow> queue_ok cfg st'" by simp
qed



lemma queue_okD:
  assumes "queue_ok cfg st"
  shows "sorted_wrt key_less (evq st)"
    and "\<And>x. x \<in> set (evq st) \<Longrightarrow> eid_of x < eid st"
    and "\<And>x. x \<in> set (evq st) \<Longrightarrow> now st \<le> time_of x"
    and "\<And>x. x \<in> set (evq st) \<Longrightarrow> eid_of x < 2 \<Longrightarrow> time_of x = 0"
    and "\<And>x. x \<in> set (evq st) \<Longrightarrow> event_of x = Until \<Longrightarrow>
           x = (SIMULATION_TIME cfg, URGENT, 2, Until)"
    and "(SIMULATION_TIME cfg, URGENT, 2, Until) \<in> set (evq st)"
    and "0 \<le> now st" and "now st < SIMULATION_TIME cfg"
  using assms unfolding queue_ok_def by blast+

lemma queue_okI:
  assumes "sorted_wrt key_less (evq st)"
    and "\<And>x. x \<in> set (evq st) \<Longrightarrow> eid_of x < eid st"
    and "\<And>x. x \<in> set (evq st) \<Longrightarrow> now st \<le> time_of x"
    and "\<And>x. x \<in> set (evq st) \<Longrightarrow> eid_of x < 2 \<Longrightarrow> time_of x = 0"
    and "\<And>x. x \<in> set (evq st) \<Longrightarrow> event_of x = Until \<Longrightarrow>
           x = (SIMULATION_TIME cfg, URGENT, 2, Until)"
    and "(SIMULATION_TIME cfg, URGENT, 2, Until) \<in> set (evq st)"
    and "0 \<le> now st" and "now st < SIMULATION_TIME cfg"
  shows "queue_ok cfg st"
  unfolding queue_ok_def using assms by blast

lemma queue_ok_pop:
  assumes ok: "queue_ok cfg st" and q: "evq st = (t, p, e, ev) # rest" and ev: "ev \<noteq> Until"
  shows "queue_ok cfg (st\<lparr>now := t, evq := rest\<rparr>)"
proof -
  let ?u = "(SIMULATION_TIME cfg, URGENT, 2, Until)"
  note d = queue_okD [OF ok]
  have sub: "\<And>x. x \<in> set rest \<Longrightarrow> x \<in> set (evq st)" by (simp add: q)
  from d(6) q ev have u: "?u \<in> set rest" by auto
  from d(1) q have srt: "sorted_wrt key_less rest"
    and hd: "\<And>x. x \<in> set rest \<Longrightarrow> key_less (t, p, e, ev) x"
    by simp_all
  from hd u have "key_less (t, p, e, ev) ?u" by blast
  moreover from d(4) [of "(t, p, e, ev)"] q have "e < 2 \<longrightarrow> t = 0" by simp
  moreover from d(3) [of "(t, p, e, ev)"] q have "now st \<le> t" by simp
  ultimately have t: "t < SIMULATION_TIME cfg" "0 \<le> t"
    using d(7,8) by (auto simp: URGENT_def)
  show ?thesis
  proof (rule queue_okI)
    show "sorted_wrt key_less (evq (st\<lparr>now := t, evq := rest\<rparr>))" using srt by simp
    show "(SIMULATION_TIME cfg, URGENT, 2, Until) \<in> set (evq (st\<lparr>now := t, evq := rest\<rparr>))"
      using u by simp
    show "0 \<le> now (st\<lparr>now := t, evq := rest\<rparr>)" using t by simp
    show "now (st\<lparr>now := t, evq := rest\<rparr>) < SIMULATION_TIME cfg" using t by simp
  next
    fix x assume "x \<in> set (evq (st\<lparr>now := t, evq := rest\<rparr>))"
    then have x: "x \<in> set rest" by simp
    show "eid_of x < eid (st\<lparr>now := t, evq := rest\<rparr>)" using d(2) [OF sub [OF x]] by simp
    show "now (st\<lparr>now := t, evq := rest\<rparr>) \<le> time_of x"
      using key_less_time [OF hd [OF x]] by simp
    show "eid_of x < 2 \<Longrightarrow> time_of x = 0" using d(4) [OF sub [OF x]] by simp
    show "event_of x = Until \<Longrightarrow> x = (SIMULATION_TIME cfg, URGENT, 2, Until)"
      using d(5) [OF sub [OF x]] by simp
  qed
qed

lemma queue_ok_step:
  assumes "queue_ok cfg st" "step cfg d st = Inr (False, st')"
  shows "queue_ok cfg st'"
  using assms(2)
proof (cases rule: step_cases)
  case (event t p e ev rest)
  show ?thesis
    by (rule queue_ok_callbacks [OF event(4) event(2) queue_ok_pop [OF assms(1) event(1,2)]])
qed simp_all

lemma queue_ok_init:
  assumes "init_state cfg g = Inr s"
  shows "queue_ok cfg s"
proof -
  from init_state_fields(16) [OF assms] have "0 \<le> SIMULATION_TIME cfg" by simp
  with init_state_fields(16) [OF assms] show ?thesis
    by (simp add: queue_ok_def init_state_fields [OF assms] URGENT_def)
qed

section \<open>The monitor samples once per time unit\<close>

lemma pending_pop:
  "evq st = (t, p, e, ev) # rest \<Longrightarrow>
   pending P st = (if P ev then 1 else 0) + pending P (st\<lparr>now := t', evq := rest\<rparr>)"
  by (simp add: pending_def)

lemma pending_zero: "pending P st = 0 \<Longrightarrow> x \<in> set (evq st) \<Longrightarrow> \<not> P (event_of x)"
  by (auto simp: pending_def filter_empty_conv)

lemma pending_pos: "0 < pending P st \<Longrightarrow> \<exists>x \<in> set (evq st). P (event_of x)"
  by (auto simp: pending_def filter_empty_conv)

lemma monitor_okD:
  assumes "monitor_ok st"
  shows "pending is_mon st = 1"
    and "\<And>x. x \<in> set (evq st) \<Longrightarrow> event_of x = InitMon \<Longrightarrow>
           time_of x = 0 \<and> queue_lengths st = []"
    and "\<And>x. x \<in> set (evq st) \<Longrightarrow> event_of x = MonTimeout \<Longrightarrow>
           time_of x = of_nat (length (queue_lengths st)) \<and> queue_lengths st \<noteq> []"
    and "queue_lengths st \<noteq> [] \<Longrightarrow> of_nat (length (queue_lengths st)) - 1 \<le> now st"
  using assms unfolding monitor_ok_def by blast+

lemma monitor_okI:
  assumes "pending is_mon st = 1"
    and "\<And>x. x \<in> set (evq st) \<Longrightarrow> event_of x = InitMon \<Longrightarrow>
           time_of x = 0 \<and> queue_lengths st = []"
    and "\<And>x. x \<in> set (evq st) \<Longrightarrow> event_of x = MonTimeout \<Longrightarrow>
           time_of x = of_nat (length (queue_lengths st)) \<and> queue_lengths st \<noteq> []"
    and "queue_lengths st \<noteq> [] \<Longrightarrow> of_nat (length (queue_lengths st)) - 1 \<le> now st"
  shows "monitor_ok st"
  unfolding monitor_ok_def using assms by blast

lemma monitor_ok_upd [simp]:
  "monitor_ok (st\<lparr>users := a\<rparr>) = monitor_ok st"
  "monitor_ok (st\<lparr>queue := b\<rparr>) = monitor_ok st"
  "monitor_ok (st\<lparr>rng := c\<rparr>) = monitor_ok st"
  "monitor_ok (st\<lparr>gen_i := d\<rparr>) = monitor_ok st"
  "monitor_ok (st\<lparr>custs := e\<rparr>) = monitor_ok st"
  "monitor_ok (st\<lparr>balked_customers := f\<rparr>) = monitor_ok st"
  "monitor_ok (st\<lparr>reneged_customers := g\<rparr>) = monitor_ok st"
  "monitor_ok (st\<lparr>served_customers := h\<rparr>) = monitor_ok st"
  "monitor_ok (st\<lparr>waiting_times := i\<rparr>) = monitor_ok st"
  "monitor_ok (st\<lparr>total_time_tellers_busy := k\<rparr>) = monitor_ok st"
  by (simp_all add: monitor_ok_def)

lemma monitor_ok_schedule:
  "monitor_ok st \<Longrightarrow> \<not> is_mon ev \<Longrightarrow> monitor_ok (schedule ev p dl st)"
  by (rule monitor_okI) (auto dest: monitor_okD)

lemma monitor_ok_trigger_put: "monitor_ok st \<Longrightarrow> monitor_ok (trigger_put cfg st)"
  by (simp add: trigger_put_def monitor_ok_schedule split: list.splits)

lemma monitor_ok_timeout:
  "timeout ev dl st = Inr st' \<Longrightarrow> \<not> is_mon ev \<Longrightarrow> monitor_ok st \<Longrightarrow> monitor_ok st'"
  by (auto simp: timeout_def monitor_ok_schedule split: if_splits)

lemma monitor_ok_expovariate:
  "expovariate d m st = Inr (x, st') \<Longrightarrow> monitor_ok st \<Longrightarrow> monitor_ok st'"
  by (auto simp: expovariate_def split: if_splits)

lemma monitor_ok_request: "monitor_ok st \<Longrightarrow> monitor_ok (request cfg n st)"
  by (simp add: request_def monitor_ok_trigger_put)

lemma monitor_ok_finish: "monitor_ok st \<Longrightarrow> monitor_ok (finish n st)"
  by (simp add: finish_def monitor_ok_schedule)

lemma monitor_ok_exit_with:
  "exit_with n st = Inr st' \<Longrightarrow> monitor_ok st \<Longrightarrow> monitor_ok st'"
  by (auto simp: exit_with_def cancel_def release_def monitor_ok_schedule
           split: sum.splits if_splits)

lemma monitor_ok_cond_check: "monitor_ok st \<Longrightarrow> monitor_ok (cond_check n st)"
  by (simp add: cond_check_def monitor_ok_schedule)

lemma monitor_ok_generator_wait:
  "generator_wait cfg d st = Inr st' \<Longrightarrow> monitor_ok st \<Longrightarrow> monitor_ok st'"
  by (auto simp: generator_wait_def split: sum.splits prod.splits
           dest!: monitor_ok_expovariate elim: monitor_ok_timeout)

lemma monitor_ok_customer_served:
  "customer_served cfg d n st = Inr st' \<Longrightarrow> monitor_ok st \<Longrightarrow> monitor_ok st'"
  by (auto simp: customer_served_def Let_def expovariate_def
           split: sum.splits prod.splits if_splits elim!: monitor_ok_timeout)

lemma monitor_ok_callbacks:
  "callbacks cfg d ev st = Inr st' \<Longrightarrow> \<not> is_mon ev \<Longrightarrow> monitor_ok st \<Longrightarrow> monitor_ok st'"
proof (cases ev)
  case InitGen
  then show "callbacks cfg d ev st = Inr st' \<Longrightarrow> monitor_ok st \<Longrightarrow> monitor_ok st'"
    by (auto elim: monitor_ok_generator_wait)
next
  case GenTimeout
  then show "callbacks cfg d ev st = Inr st' \<Longrightarrow> monitor_ok st \<Longrightarrow> monitor_ok st'"
    by (auto simp: customer_generator_def Let_def monitor_ok_schedule
             elim!: monitor_ok_generator_wait)
next
  case (InitCust n)
  then show "callbacks cfg d ev st = Inr st' \<Longrightarrow> monitor_ok st \<Longrightarrow> monitor_ok st'"
    by (auto simp: customer_start_def monitor_ok_finish monitor_ok_request
             split: if_splits elim!: monitor_ok_timeout)
next
  case (ReqEv n)
  then show "callbacks cfg d ev st = Inr st' \<Longrightarrow> monitor_ok st \<Longrightarrow> monitor_ok st'"
    by (auto simp: request_processed_def monitor_ok_cond_check)
next
  case (PatienceEv n)
  then show "callbacks cfg d ev st = Inr st' \<Longrightarrow> monitor_ok st \<Longrightarrow> monitor_ok st'"
    by (auto simp: monitor_ok_cond_check)
next
  case (CondEv n)
  then show "callbacks cfg d ev st = Inr st' \<Longrightarrow> monitor_ok st \<Longrightarrow> monitor_ok st'"
    by (auto simp: customer_resume_def customer_reneged_def monitor_ok_finish
             split: if_splits sum.splits
             elim: monitor_ok_customer_served dest!: monitor_ok_exit_with)
next
  case (ServiceEv n)
  then show "callbacks cfg d ev st = Inr st' \<Longrightarrow> monitor_ok st \<Longrightarrow> monitor_ok st'"
    by (auto simp: customer_done_def monitor_ok_finish split: sum.splits
             dest!: monitor_ok_exit_with)
next
  case (ReleaseEv n)
  then show "callbacks cfg d ev st = Inr st' \<Longrightarrow> monitor_ok st \<Longrightarrow> monitor_ok st'"
    by (auto simp: monitor_ok_trigger_put)
next
  case (ProcEnd n)
  then show "callbacks cfg d ev st = Inr st' \<Longrightarrow> monitor_ok st \<Longrightarrow> monitor_ok st'"
    by auto
next
  case Until
  then show "callbacks cfg d ev st = Inr st' \<Longrightarrow> monitor_ok st \<Longrightarrow> monitor_ok st'"
    by auto
next
  case InitMon
  then show "\<not> is_mon ev \<Longrightarrow> monitor_ok st'" by simp
next
  case MonTimeout
  then show "\<not> is_mon ev \<Longrightarrow> monitor_ok st'" by simp
qed

lemma monitor_ok_pop:
  assumes ok: "monitor_ok st" and q: "evq st = (t, p, e, ev) # rest" and ev: "\<not> is_mon ev"
    and t: "now st \<le> t"
  shows "monitor_ok (st\<lparr>now := t, evq := rest\<rparr>)"
proof (rule monitor_okI)
  note d = monitor_okD [OF ok]
  show "pending is_mon (st\<lparr>now := t, evq := rest\<rparr>) = 1"
    using d(1) ev pending_pop [OF q, of is_mon t] by simp
  show "queue_lengths (st\<lparr>now := t, evq := rest\<rparr>) \<noteq> [] \<Longrightarrow>
        of_nat (length (queue_lengths (st\<lparr>now := t, evq := rest\<rparr>))) - 1
          \<le> now (st\<lparr>now := t, evq := rest\<rparr>)"
    using d(4) t by simp
  fix x assume "x \<in> set (evq (st\<lparr>now := t, evq := rest\<rparr>))"
  then have x: "x \<in> set (evq st)" by (simp add: q)
  show "event_of x = InitMon \<Longrightarrow>
         time_of x = 0 \<and> queue_lengths (st\<lparr>now := t, evq := rest\<rparr>) = []"
    using d(2) [OF x] by simp
  show "event_of x = MonTimeout \<Longrightarrow>
         time_of x = of_nat (length (queue_lengths (st\<lparr>now := t, evq := rest\<rparr>))) \<and>
         queue_lengths (st\<lparr>now := t, evq := rest\<rparr>) \<noteq> []"
    using d(3) [OF x] by simp
qed

lemma monitor_ok_sample:
  assumes ok: "monitor_ok st" and q: "evq st = (t, p, e, ev) # rest" and ev: "is_mon ev"
    and cb: "monitor_queue_length (st\<lparr>now := t, evq := rest\<rparr>) = Inr st'"
  shows "monitor_ok st'"
proof -
  note d = monitor_okD [OF ok]
  let ?ql = "queue_lengths st"
  let ?s1 = "st\<lparr>now := t, evq := rest, queue_lengths := ?ql @ [length (queue st)]\<rparr>"
  from cb have st': "st' = schedule MonTimeout NORMAL 1 ?s1"
    by (simp add: monitor_queue_length_def timeout_def)
  from d(1) ev pending_pop [OF q, of is_mon t] have "pending is_mon (st\<lparr>now := t, evq := rest\<rparr>) = 0"
    by simp
  then have none: "\<And>x. x \<in> set rest \<Longrightarrow> \<not> is_mon (event_of x)"
    using pending_zero [of is_mon "st\<lparr>now := t, evq := rest\<rparr>"] by simp
  have hd: "(t, p, e, ev) \<in> set (evq st)" by (simp add: q)
  from ev have "ev = InitMon \<or> ev = MonTimeout" by (cases ev) simp_all
  with d(2,3) [OF hd] have t: "t = of_nat (length ?ql)" by auto
  show ?thesis
  proof (rule monitor_okI)
    show "pending is_mon st' = 1"
      using \<open>pending is_mon (st\<lparr>now := t, evq := rest\<rparr>) = 0\<close>
      by (simp add: st')
    show "queue_lengths st' \<noteq> [] \<Longrightarrow> of_nat (length (queue_lengths st')) - 1 \<le> now st'"
      by (simp add: st' t)
    fix x assume "x \<in> set (evq st')"
    then have x: "x = (t + 1, NORMAL, eid st, MonTimeout) \<or> x \<in> set rest"
      by (simp add: st')
    show "event_of x = InitMon \<Longrightarrow> time_of x = 0 \<and> queue_lengths st' = []"
      using x none [of x] by auto
    show "event_of x = MonTimeout \<Longrightarrow>
           time_of x = of_nat (length (queue_lengths st')) \<and> queue_lengths st' \<noteq> []"
      using x none [of x] by (auto simp: st' t)
  qed
qed

lemma monitor_ok_step:
  assumes "queue_ok cfg st" "monitor_ok st" "step cfg d st = Inr (False, st')"
  shows "monitor_ok st'"
  using assms(3)
proof (cases rule: step_cases)
  case (event t p e ev rest)
  show ?thesis
  proof (cases "is_mon ev")
    case True
    then have "callbacks cfg d ev (st\<lparr>now := t, evq := rest\<rparr>)
                 = monitor_queue_length (st\<lparr>now := t, evq := rest\<rparr>)"
      by (cases ev) simp_all
    with event(4) show ?thesis
      using monitor_ok_sample [OF assms(2) event(1) True] by simp
  next
    case False
    have "now st \<le> t" using queue_okD(3) [OF assms(1), of "(t, p, e, ev)"] event(1) by simp
    from monitor_ok_pop [OF assms(2) event(1) False this] show ?thesis
      by (rule monitor_ok_callbacks [OF event(4) False])
  qed
qed simp_all

lemma monitor_ok_init:
  assumes "init_state cfg g = Inr s"
  shows "monitor_ok s"
  by (rule monitor_okI) (auto simp: init_state_fields [OF assms] pending_def)


subsection \<open>The last state before the run stops\<close>

lemma after_events_running:
  assumes "\<And>s s'. I s \<Longrightarrow> step cfg d s = Inr (False, s') \<Longrightarrow> I s'"
    and "I st" and "after_events cfg d k st = Some st'"
  shows "I st'"
  using assms(2,3)
proof (induction k arbitrary: st)
  case 0
  then show ?case by simp
next
  case (Suc k)
  then show ?case
    by (auto split: sum.splits prod.splits bool.splits if_splits intro: assms(1))
qed

lemma during_running:
  assumes "during_run cfg d g k = Some st"
    and "\<And>s. init_state cfg g = Inr s \<Longrightarrow> I s"
    and "\<And>s s'. I s \<Longrightarrow> step cfg d s = Inr (False, s') \<Longrightarrow> I s'"
  shows "I st"
proof -
  from assms(1) obtain s0 where "init_state cfg g = Inr s0" "after_events cfg d k s0 = Some st"
    by (auto simp: during_run_def split: sum.splits)
  then show ?thesis using after_events_running [of I cfg d s0 k st] assms(2,3) by blast
qed

lemma run_loop_last:
  "run_loop cfg d fuel s0 = Inr (Some st') \<Longrightarrow>
   \<exists>k st. after_events cfg d k s0 = Some st \<and> step cfg d st = Inr (True, st')"
proof (induction fuel arbitrary: s0)
  case 0
  then show ?case by simp
next
  case (Suc fuel)
  from Suc.prems obtain b s1 where s1: "step cfg d s0 = Inr (b, s1)"
    by (auto split: sum.splits)
  show ?case
  proof (cases b)
    case True
    with Suc.prems s1 have "after_events cfg d 0 s0 = Some s0" "step cfg d s0 = Inr (True, st')"
      by simp_all
    then show ?thesis by blast
  next
    case False
    with Suc.prems s1 have "run_loop cfg d fuel s1 = Inr (Some st')" by simp
    from Suc.IH [OF this] obtain k st
      where "after_events cfg d k s1 = Some st" "step cfg d st = Inr (True, st')" by blast
    with s1 False have "after_events cfg d (Suc k) s0 = Some st" by simp
    with \<open>step cfg d st = Inr (True, st')\<close> show ?thesis by blast
  qed
qed

lemma final_state_last:
  assumes "final_state cfg d g fuel = Inr (Some st')"
  obtains k st where "during_run cfg d g k = Some st" "step cfg d st = Inr (True, st')"
proof -
  from assms obtain s0 where s0: "init_state cfg g = Inr s0" "run_loop cfg d fuel s0 = Inr (Some st')"
    by (auto simp: final_state_def split: sum.splits)
  from run_loop_last [OF s0(2)] obtain k st
    where "after_events cfg d k s0 = Some st" "step cfg d st = Inr (True, st')" by blast
  with s0(1) have "during_run cfg d g k = Some st" by (simp add: during_run_def)
  then show ?thesis using \<open>step cfg d st = Inr (True, st')\<close> by (rule that)
qed

lemma running_ok:
  assumes "during_run cfg d g k = Some st"
  shows "queue_ok cfg st \<and> monitor_ok st"
  by (rule during_running [where I = "\<lambda>s. queue_ok cfg s \<and> monitor_ok s", OF assms])
     (auto intro: queue_ok_init monitor_ok_init queue_ok_step monitor_ok_step)

lemma samples_at_stop:
  assumes q: "queue_ok cfg st" and m: "monitor_ok st" and stop: "step cfg d st = Inr (True, st')"
  shows "of_nat (length (queue_lengths st')) - 1 < SIMULATION_TIME cfg \<and>
         SIMULATION_TIME cfg \<le> of_nat (length (queue_lengths st'))"
  using stop
proof (cases rule: step_cases)
  case empty
  with queue_okD(6) [OF q] show ?thesis by simp
next
  case (stop t p e rest)
  let ?u = "(SIMULATION_TIME cfg, URGENT, 2, Until)"
  have "(t, p, e, Until) \<in> set (evq st)" by (simp add: stop(1))
  from queue_okD(5) [OF q this] have hd: "(t, p, e, Until) = ?u" by simp
  from monitor_okD(1) [OF m] pending_pos [of is_mon st] obtain x
    where x: "x \<in> set (evq st)" "is_mon (event_of x)" by auto
  with stop(1) have xr: "x \<in> set rest" by auto
  from queue_okD(1) [OF q] stop(1) xr hd have less: "key_less ?u x" by auto
  from queue_okD(7,8) [OF q] have pos: "0 < SIMULATION_TIME cfg" by simp
  from x(2) have "event_of x = InitMon \<or> event_of x = MonTimeout"
    by (cases "event_of x") simp_all
  then show ?thesis
  proof
    assume "event_of x = InitMon"
    with monitor_okD(2) [OF m x(1)] have "time_of x = 0" by simp
    with key_less_time [OF less] pos show ?thesis by simp
  next
    assume "event_of x = MonTimeout"
    with monitor_okD(3) [OF m x(1)]
    have tx: "time_of x = of_nat (length (queue_lengths st))" "queue_lengths st \<noteq> []"
      by simp_all
    from monitor_okD(4) [OF m tx(2)] queue_okD(8) [OF q]
    have "of_nat (length (queue_lengths st)) - 1 < SIMULATION_TIME cfg" by simp
    moreover from key_less_time [OF less] tx(1)
    have "SIMULATION_TIME cfg \<le> of_nat (length (queue_lengths st))" by simp
    ultimately show ?thesis by (simp add: stop(3))
  qed
next
  case (event t p e ev rest)
  then show ?thesis by simp
qed

subsection \<open>The wait list never exceeds the balking threshold\<close>

lemma trigger_put_queue_le:
  "length (queue st) \<le> m \<Longrightarrow> length (queue (trigger_put cfg st)) \<le> m"
  by (auto simp: trigger_put_def split: list.splits)

lemma trigger_put_queue_lengths [simp]:
  "queue_lengths (trigger_put cfg st) = queue_lengths st"
  by (auto simp: trigger_put_def split: list.splits)

lemma queue_bounded_callbacks:
  "callbacks cfg d ev st = Inr st' \<Longrightarrow> queue_bounded cfg st \<Longrightarrow> queue_bounded cfg st'"
  by (cases ev)
     (auto simp: ops_defs' queue_bounded_def Let_def length_remove1
           split: if_splits sum.splits prod.splits intro!: trigger_put_queue_le)

lemma queue_bounded_step:
  "queue_bounded cfg st \<Longrightarrow> step cfg d st = Inr (b, st') \<Longrightarrow> queue_bounded cfg st'"
  by (erule step_cases) (auto dest: queue_bounded_callbacks simp: queue_bounded_def)

lemma queue_bounded_init: "init_state cfg g = Inr s \<Longrightarrow> queue_bounded cfg s"
  by (simp add: queue_bounded_def init_state_fields)

lemma final_stream_c:
  "case final_state source_config stream_c 0 200 of
     Inr (Some st) \<Rightarrow>
       result_of st = \<lparr>served = 0, balked = 1, reneged = 3, wait_times = [0, 0],
                       queue_samples = [0, 3, 3, 3, 3, 3, 3] @ replicate 93 0,
                       busy_time = 1 / 5\<rparr> \<and>
       rng st = 11 \<and> gen_i st = 6 \<and> pending is_service st = 2 \<and> users st = [1, 2] \<and>
       now st = 100
   | _ \<Rightarrow> False"
  by code_simp

text \<open>
  Claim C9: when a run has ended, every queue-length sample is between 0 and
  \<open>MAX_QUEUE_LENGTH\<close>, and the number of samples is the horizon divided by the sampling
  interval (which is 1) rounded up: it is at least \<open>SIMULATION_TIME\<close> and less than
  \<open>SIMULATION_TIME + 1\<close>.
\<close>

theorem C9_queue_samples:
  assumes "run_simulation cfg draws g fuel = Inr (Some (r, g'))"
  shows "(\<forall>x \<in> set (queue_samples r). 0 \<le> x \<and> x \<le> MAX_QUEUE_LENGTH cfg) \<and>
         of_nat (length (queue_samples r)) - 1 < SIMULATION_TIME cfg \<and>
         SIMULATION_TIME cfg \<le> of_nat (length (queue_samples r))"
proof -
  from assms obtain st'
    where st': "final_state cfg draws g fuel = Inr (Some st')" "r = result_of st'"
    by (rule run_simulation_final)
  have "queue_bounded cfg st'"
    by (rule final_invariant [where I = "queue_bounded cfg", OF st'(1)])
       (erule queue_bounded_init, erule queue_bounded_step, assumption)
  then have bound: "\<forall>x \<in> set (queue_samples r). 0 \<le> x \<and> x \<le> MAX_QUEUE_LENGTH cfg"
    by (simp add: queue_bounded_def st'(2) result_of_def list_all_iff)
  from st'(1) obtain k st
    where st: "during_run cfg draws g k = Some st" "step cfg draws st = Inr (True, st')"
    by (rule final_state_last)
  from running_ok [OF st(1)] have "queue_ok cfg st" "monitor_ok st" by simp_all
  from samples_at_stop [OF this st(2)] bound show ?thesis
    by (simp add: st'(2) result_of_def)
qed

theorem C9_queue_samples_witness:
  "\<exists>r g'. run_simulation source_config stream_c 0 200 = Inr (Some (r, g')) \<and>
     queue_samples r = [0, 3, 3, 3, 3, 3, 3] @ replicate 93 0 \<and>
     list_all (\<lambda>x. x \<le> MAX_QUEUE_LENGTH source_config) (queue_samples r) \<and>
     length (queue_samples r) = 100 \<and>
     SIMULATION_TIME source_config \<le> of_nat (length (queue_samples r))"
proof -
  from final_stream_c obtain st
    where st: "final_state source_config stream_c 0 200 = Inr (Some st)"
      "result_of st = \<lparr>served = 0, balked = 1, reneged = 3, wait_times = [0, 0],
                       queue_samples = [0, 3, 3, 3, 3, 3, 3] @ replicate 93 0,
                       busy_time = 1 / 5\<rparr>"
    by (auto split: sum.splits option.splits)
  then have run: "run_simulation source_config stream_c 0 200 = Inr (Some (result_of st, rng st))"
    by (simp add: run_simulation_def)
  from C9_queue_samples [OF run] st(2) run show ?thesis
    by (auto simp: list_all_iff)
qed

section \<open>Every customer is in step with its events\<close>

lemma cnt_schedule [simp]:
  "cnt (schedule ev p dl st) x = (if x = ev then 1 else 0) + cnt st x"
  by (simp add: cnt_def)

lemma cnt_upd [simp]:
  "cnt (st\<lparr>users := a\<rparr>) = cnt st"
  "cnt (st\<lparr>queue := b\<rparr>) = cnt st"
  "cnt (st\<lparr>rng := c\<rparr>) = cnt st"
  "cnt (st\<lparr>gen_i := d\<rparr>) = cnt st"
  "cnt (st\<lparr>custs := e\<rparr>) = cnt st"
  "cnt (st\<lparr>balked_customers := f\<rparr>) = cnt st"
  "cnt (st\<lparr>reneged_customers := g\<rparr>) = cnt st"
  "cnt (st\<lparr>served_customers := h\<rparr>) = cnt st"
  "cnt (st\<lparr>waiting_times := i\<rparr>) = cnt st"
  "cnt (st\<lparr>queue_lengths := j\<rparr>) = cnt st"
  "cnt (st\<lparr>total_time_tellers_busy := k\<rparr>) = cnt st"
  "cnt (st\<lparr>now := l\<rparr>) = cnt st"
  by (simp_all add: cnt_def fun_eq_iff)

lemma cnt_pop:
  "evq st = (t, p, e, ev) # rest \<Longrightarrow>
   cnt st = (\<lambda>x. (if x = ev then 1 else 0) + cnt (st\<lparr>now := t', evq := rest\<rparr>) x)"
  by (auto simp: cnt_def pending_def fun_eq_iff)


lemma cust_ok_c_cong:
  assumes "c' (InitCust n) = c (InitCust n)" "c' (ReqEv n) = c (ReqEv n)"
    "c' (PatienceEv n) = c (PatienceEv n)" "c' (CondEv n) = c (CondEv n)"
    "c' (ServiceEv n) = c (ServiceEv n)" "custs st' n = custs st n"
    "n \<in> set (queue st') \<longleftrightarrow> n \<in> set (queue st)"
    "n \<in> set (users st') \<longleftrightarrow> n \<in> set (users st)"
    "gen_i st' = gen_i st"
  shows "cust_ok_c c' st' n = cust_ok_c c st n"
  unfolding cust_ok_c_def by (simp only: assms)

lemma wf_cD:
  assumes "wf_c c st"
  shows "cust_ok_c c st n" "distinct (queue st)" "distinct (users st)"
  using assms by (simp_all add: wf_c_def)

lemma wfI:
  assumes "\<And>m. cust_ok_c (cnt st) st m" "distinct (queue st)" "distinct (users st)"
  shows "wf st"
  using assms by (simp add: wf_def wf_c_def)

lemma wf_ProcEnd:
  assumes "wf_c (\<lambda>x. (if x = ProcEnd n then 1 else 0) + cnt st x) st"
  shows "wf st"
proof (rule wfI)
  fix m
  have "cust_ok_c (cnt st) st m =
        cust_ok_c (\<lambda>x. (if x = ProcEnd n then 1 else 0) + cnt st x) st m"
    by (rule cust_ok_c_cong) simp_all
  with wf_cD(1) [OF assms] show "cust_ok_c (cnt st) st m" by simp
qed (rule wf_cD [OF assms])+

lemma wf_ReqEv:
  assumes "wf_c (\<lambda>x. (if x = ReqEv n then 1 else 0) + cnt st x) st"
  shows "wf (request_processed n st)"
proof (rule wfI)
  let ?c = "\<lambda>x. (if x = ReqEv n then 1 else 0) + cnt st x"
  let ?st = "request_processed n st"
  fix m
  show "cust_ok_c (cnt ?st) ?st m"
  proof (cases "m = n")
    case False
    have "cust_ok_c (cnt ?st) ?st m = cust_ok_c ?c st m"
      using False by (intro cust_ok_c_cong) (simp_all add: request_processed_def cond_check_def)
    with wf_cD(1) [OF assms] show ?thesis by simp
  next
    case True
    from wf_cD(1) [OF assms, of n] show ?thesis
      unfolding True cust_ok_c_def
      by (simp add: request_processed_def cond_check_def split: phase.splits if_splits)
  qed
qed (use wf_cD(2,3) [OF assms] in \<open>simp_all add: request_processed_def cond_check_def\<close>)


lemma wf_PatienceEv:
  assumes "wf_c (\<lambda>x. (if x = PatienceEv n then 1 else 0) + cnt st x) st"
  shows "wf (cond_check n st)"
proof (rule wfI)
  let ?c = "\<lambda>x. (if x = PatienceEv n then 1 else 0) + cnt st x"
  let ?st = "cond_check n st"
  fix m
  show "cust_ok_c (cnt ?st) ?st m"
  proof (cases "m = n")
    case False
    have "cust_ok_c (cnt ?st) ?st m = cust_ok_c ?c st m"
      using False by (intro cust_ok_c_cong) (simp_all add: cond_check_def)
    with wf_cD(1) [OF assms] show ?thesis by simp
  next
    case True
    from wf_cD(1) [OF assms, of n] show ?thesis
      unfolding True cust_ok_c_def
      by (simp add: cond_check_def split: phase.splits if_splits)
  qed
qed (use wf_cD(2,3) [OF assms] in \<open>simp_all add: cond_check_def\<close>)

text \<open>Granting: with any further events \<open>f\<close> taken as scheduled already.\<close>

lemma wf_trigger_put:
  assumes "wf_c (\<lambda>x. f x + cnt st x) st"
  shows "wf_c (\<lambda>x. f x + cnt (trigger_put cfg st) x) (trigger_put cfg st)"
proof (cases "queue st")
  case Nil
  with assms show ?thesis by (simp add: trigger_put_def)
next
  case (Cons h rest)
  show ?thesis
  proof (cases "length (users st) < NUM_TELLERS cfg")
    case False
    with assms Cons show ?thesis by (simp add: trigger_put_def)
  next
    case True
    let ?c = "\<lambda>x. f x + cnt st x"
    let ?st = "trigger_put cfg st"
    have st': "?st = schedule (ReqEv h) NORMAL 0
                 (st\<lparr>users := users st @ [h], queue := rest,
                     custs := (custs st)(h := (custs st h)\<lparr>req_triggered := True\<rparr>)\<rparr>)"
      using True Cons by (simp add: trigger_put_def)
    note d = wf_cD [OF assms]
    from d(2) Cons have hr: "h \<notin> set rest" "distinct rest" by simp_all
    have hq: "h \<in> set (queue st)" by (simp add: Cons)
    with d(1) [of h] have h: "phase (custs st h) = AtRace" "\<not> req_triggered (custs st h)"
      by (auto simp: cust_ok_c_def split: phase.splits)
    with d(1) [of h] have hu: "h \<notin> set (users st)"
      by (auto simp: cust_ok_c_def)
    show ?thesis
      unfolding wf_c_def
    proof (intro conjI allI)
      fix m
      show "cust_ok_c (\<lambda>x. f x + cnt ?st x) ?st m"
      proof (cases "m = h")
        case False
        have "cust_ok_c (\<lambda>x. f x + cnt ?st x) ?st m = cust_ok_c ?c st m"
          using False by (intro cust_ok_c_cong) (auto simp: st' Cons)
        with d(1) show ?thesis by simp
      next
        case True
        from d(1) [of h] h hr show ?thesis
          unfolding True cust_ok_c_def
          by (simp add: st')
      qed
    next
      show "distinct (queue ?st)" using hr by (simp add: st')
      show "distinct (users ?st)" using d(3) hu by (simp add: st')
    qed
  qed
qed

lemma wf_ReleaseEv:
  assumes "wf_c (\<lambda>x. (if x = ReleaseEv n then 1 else 0) + cnt st x) st"
  shows "wf (trigger_put cfg st)"
proof -
  have "wf_c (\<lambda>x. 0 + cnt st x) st"
    unfolding wf_c_def
  proof (intro conjI allI)
    fix m
    have "cust_ok_c (\<lambda>x. 0 + cnt st x) st m =
          cust_ok_c (\<lambda>x. (if x = ReleaseEv n then 1 else 0) + cnt st x) st m"
      by (rule cust_ok_c_cong) simp_all
    with wf_cD(1) [OF assms] show "cust_ok_c (\<lambda>x. 0 + cnt st x) st m" by simp
  qed (rule wf_cD [OF assms])+
  from wf_trigger_put [OF this, of cfg] show ?thesis by (simp add: wf_def)
qed


text \<open>
  A state change that leaves customers, wait list, holders and generator counter alone
  and adds no customer event keeps the invariant.
\<close>

lemma wf_c_neutral:
  assumes "wf_c c st"
    and "\<And>n. c' (InitCust n) = c (InitCust n)" "\<And>n. c' (ReqEv n) = c (ReqEv n)"
    and "\<And>n. c' (PatienceEv n) = c (PatienceEv n)" "\<And>n. c' (CondEv n) = c (CondEv n)"
    and "\<And>n. c' (ServiceEv n) = c (ServiceEv n)"
    and "custs st' = custs st" "queue st' = queue st" "users st' = users st"
    and "gen_i st' = gen_i st"
  shows "wf_c c' st'"
  unfolding wf_c_def
proof (intro conjI allI)
  fix m
  have "cust_ok_c c' st' m = cust_ok_c c st m"
    by (rule cust_ok_c_cong) (simp_all add: assms(2-))
  with wf_cD(1) [OF assms(1)] show "cust_ok_c c' st' m" by simp
qed (use wf_cD(2,3) [OF assms(1)] assms(8,9) in simp_all)

lemma wf_generator_wait:
  assumes "generator_wait cfg d st = Inr st'"
    and "wf_c (\<lambda>x. (if x = InitGen then 1 else 0) + cnt st x) st"
  shows "wf st'"
  unfolding wf_def using assms(1)
  by (intro wf_c_neutral [OF assms(2)])
     (auto simp: generator_wait_def expovariate_def timeout_def split: if_splits)

lemma wf_monitor:
  assumes "monitor_queue_length st = Inr st'"
    and "wf_c (\<lambda>x. (if x = ev then 1 else 0) + cnt st x) st" and "is_mon ev"
  shows "wf st'"
  unfolding wf_def using assms(1,3)
  by (intro wf_c_neutral [OF assms(2)])
     (auto simp: monitor_queue_length_def timeout_def split: if_splits)

lemma wf_customer_generator:
  assumes "customer_generator cfg d st = Inr st'"
    and "wf_c (\<lambda>x. (if x = GenTimeout then 1 else 0) + cnt st x) st"
  shows "wf st'"
proof (rule wfI)
  let ?c = "\<lambda>x. (if x = GenTimeout then 1 else 0) + cnt st x"
  let ?n = "gen_i st + 1"
  from assms(1) have st': "st' = schedule GenTimeout NORMAL (d (rng st))
      ((schedule (InitCust ?n) URGENT 0 (st\<lparr>gen_i := ?n\<rparr>))\<lparr>rng := rng st + 1\<rparr>)"
    by (auto simp: customer_generator_def generator_wait_def expovariate_def timeout_def Let_def
             split: if_splits)
  note d = wf_cD [OF assms(2)]
  fix m
  from d(1) [of m] show "cust_ok_c (cnt st') st' m"
    unfolding cust_ok_c_def
    by (cases "m = gen_i st + 1") (auto simp: st' split: phase.splits)
qed (use assms in \<open>auto simp: customer_generator_def generator_wait_def expovariate_def
       timeout_def Let_def wf_c_def split: if_splits\<close>)


lemma wf_customer_start:
  assumes cb: "customer_start cfg n st = Inr st'"
    and pre: "wf_c (\<lambda>x. (if x = InitCust n then 1 else 0) + cnt st x) st"
  shows "wf st'"
proof -
  let ?c = "\<lambda>x. (if x = InitCust n then 1 else 0) + cnt st x"
  note d = wf_cD [OF pre]
  from d(1) [of n] have n: "phase (custs st n) = NotStarted" "1 \<le> n" "n \<le> gen_i st"
    "cnt st (InitCust n) = 0" "cnt st (ReqEv n) = 0" "cnt st (PatienceEv n) = 0"
    "cnt st (CondEv n) = 0" "cnt st (ServiceEv n) = 0" "n \<notin> set (queue st)"
    "n \<notin> set (users st)"
    by (auto simp: cust_ok_c_def split: phase.splits if_splits)
  show ?thesis
  proof (cases "MAX_QUEUE_LENGTH cfg \<le> length (queue st)")
    case True
    with cb have st': "st' = finish n (st\<lparr>balked_customers := balked_customers st + 1\<rparr>)"
      by (simp add: customer_start_def)
    show ?thesis
    proof (rule wfI)
      fix m
      show "cust_ok_c (cnt st') st' m"
      proof (cases "m = n")
        case False
        have "cust_ok_c (cnt st') st' m = cust_ok_c ?c st m"
          using False by (intro cust_ok_c_cong) (simp_all add: st' finish_def)
        with d(1) show ?thesis by simp
      next
        case True
        from n show ?thesis
          unfolding True cust_ok_c_def by (simp add: st' finish_def)
      qed
    qed (use d(2,3) in \<open>simp_all add: st' finish_def\<close>)
  next
    case False
    let ?f = "\<lambda>x. if x = PatienceEv n then 1 else (0::nat)"
    let ?s2 = "st\<lparr>custs := (custs st)(n := \<lparr>arrival_time = now st, phase = AtRace,
                     req_triggered = False, req_processed = False, cond_triggered = False\<rparr>),
                  queue := queue st @ [n]\<rparr>"
    let ?s3 = "trigger_put cfg ?s2"
    from cb False have st': "st' = schedule (PatienceEv n) NORMAL (MAX_WAIT_TIME cfg) ?s3"
      by (auto simp: customer_start_def request_def timeout_def split: if_splits)
    have "wf_c (\<lambda>x. ?f x + cnt ?s2 x) ?s2"
      unfolding wf_c_def
    proof (intro conjI allI)
      fix m
      show "cust_ok_c (\<lambda>x. ?f x + cnt ?s2 x) ?s2 m"
      proof (cases "m = n")
        case False
        have "cust_ok_c (\<lambda>x. ?f x + cnt ?s2 x) ?s2 m = cust_ok_c ?c st m"
          using False by (intro cust_ok_c_cong) simp_all
        with d(1) show ?thesis by simp
      next
        case True
        from n show ?thesis
          unfolding True cust_ok_c_def by simp
      qed
    qed (use d(2,3) n in simp_all)
    from wf_trigger_put [OF this, of cfg] have "wf_c (\<lambda>x. ?f x + cnt ?s3 x) ?s3" .
    then show ?thesis
      unfolding wf_def by (rule wf_c_neutral) (simp_all add: st')
  qed
qed

lemma member_remove1_other: "m \<noteq> n \<Longrightarrow> m \<in> set (remove1 n xs) \<longleftrightarrow> m \<in> set xs"
  by simp

lemma exit_with_fields:
  assumes "exit_with n st = Inr s'"
  shows "custs s' = custs st" "gen_i s' = gen_i st" "users s' = remove1 n (users st)"
    "queue s' = (if req_triggered (custs st n) then queue st else remove1 n (queue st))"
    "cnt s' x = (if x = ReleaseEv n then 1 else 0) + cnt st x"
    "now s' = now st" "served_customers s' = served_customers st"
    "balked_customers s' = balked_customers st" "reneged_customers s' = reneged_customers st"
    "waiting_times s' = waiting_times st" "rng s' = rng st"
  using assms
  by (auto simp: exit_with_def cancel_def release_def split: if_splits)

lemma wf_exit_finish:
  assumes ex: "exit_with n st = Inr s'"
    and others: "\<And>m. m \<noteq> n \<Longrightarrow> cust_ok_c (cnt st) st m"
    and dq: "distinct (queue st)" and du: "distinct (users st)"
    and n: "1 \<le> n" "n \<le> gen_i st" "cnt st (InitCust n) = 0" "cnt st (CondEv n) = 0"
      "cnt st (ServiceEv n) = 0" "cond_triggered (custs st n)"
      "req_triggered (custs st n) \<longrightarrow> n \<notin> set (queue st)"
  shows "wf (finish n s')"
proof -
  note f = exit_with_fields [OF ex]
  show ?thesis
  proof (rule wfI)
    fix m
    show "cust_ok_c (cnt (finish n s')) (finish n s') m"
    proof (cases "m = n")
      case False
      have "cust_ok_c (cnt (finish n s')) (finish n s') m = cust_ok_c (cnt st) st m"
        using False by (intro cust_ok_c_cong) (auto simp: f finish_def)
      with others [OF False] show ?thesis by simp
    next
      case True
      from n du dq show ?thesis
        unfolding True cust_ok_c_def by (simp add: f finish_def)
    qed
  next
    show "distinct (queue (finish n s'))" using dq by (auto simp: f finish_def)
    show "distinct (users (finish n s'))" using du by (simp add: f finish_def)
  qed
qed

lemma wf_customer_done:
  assumes cb: "customer_done n st = Inr st'"
    and pre: "wf_c (\<lambda>x. (if x = ServiceEv n then 1 else 0) + cnt st x) st"
  shows "wf st'"
proof -
  let ?c = "\<lambda>x. (if x = ServiceEv n then 1 else 0) + cnt st x"
  let ?s1 = "st\<lparr>served_customers := served_customers st + 1\<rparr>"
  note d = wf_cD [OF pre]
  from cb obtain s' where s': "exit_with n ?s1 = Inr s'" "st' = finish n s'"
    by (auto simp: customer_done_def split: sum.splits)
  from d(1) [of n] have n: "phase (custs st n) = InService" "1 \<le> n" "n \<le> gen_i st"
    "cnt st (InitCust n) = 0" "cnt st (CondEv n) = 0" "cnt st (ServiceEv n) = 0"
    "cond_triggered (custs st n)" "n \<notin> set (queue st)"
    by (auto simp: cust_ok_c_def split: phase.splits if_splits)
  have "wf (finish n s')"
  proof (rule wf_exit_finish [OF s'(1)])
    fix m assume "m \<noteq> n"
    then have "cust_ok_c (cnt ?s1) ?s1 m = cust_ok_c ?c st m"
      by (intro cust_ok_c_cong) simp_all
    with d(1) show "cust_ok_c (cnt ?s1) ?s1 m" by simp
  qed (use d(2,3) n in simp_all)
  then show ?thesis by (simp add: s'(2))
qed

lemma wf_customer_resume:
  assumes cb: "customer_resume cfg dr n st = Inr st'"
    and pre: "wf_c (\<lambda>x. (if x = CondEv n then 1 else 0) + cnt st x) st"
  shows "wf st'"
proof -
  let ?c = "\<lambda>x. (if x = CondEv n then 1 else 0) + cnt st x"
  note d = wf_cD [OF pre]
  from d(1) [of n] have n: "phase (custs st n) = AtRace" "1 \<le> n" "n \<le> gen_i st"
    "cnt st (InitCust n) = 0" "cnt st (CondEv n) = 0" "cnt st (ServiceEv n) = 0"
    "cond_triggered (custs st n)"
    "cnt st (ReqEv n) =
       (if req_triggered (custs st n) \<and> \<not> req_processed (custs st n) then 1 else 0)"
    "n \<in> set (queue st) \<longleftrightarrow> \<not> req_triggered (custs st n)"
    "n \<in> set (users st) \<longleftrightarrow> req_triggered (custs st n)"
    "req_processed (custs st n) \<longrightarrow> req_triggered (custs st n)"
    by (auto simp: cust_ok_c_def split: phase.splits if_splits)
  show ?thesis
  proof (cases "req_processed (custs st n)")
    case True
    with cb have st': "st' = schedule (ServiceEv n) NORMAL (dr (rng st + 1))
        (st\<lparr>waiting_times := waiting_times st @ [now st - arrival_time (custs st n)],
            rng := rng st + 1,
            total_time_tellers_busy := total_time_tellers_busy st + dr (rng st),
            rng := rng st + 1 + 1,
            custs := (custs st)(n := (custs st n)\<lparr>phase := InService\<rparr>)\<rparr>)"
      by (auto simp: customer_resume_def customer_served_def expovariate_def timeout_def Let_def
               split: if_splits)
    show ?thesis
    proof (rule wfI)
      fix m
      show "cust_ok_c (cnt st') st' m"
      proof (cases "m = n")
        case False
        have "cust_ok_c (cnt st') st' m = cust_ok_c ?c st m"
          using False by (intro cust_ok_c_cong) (simp_all add: st')
        with d(1) show ?thesis by simp
      next
        case True
        from n \<open>req_processed (custs st n)\<close> show ?thesis
          unfolding True cust_ok_c_def by (simp add: st')
      qed
    qed (use d(2,3) in \<open>simp_all add: st'\<close>)
  next
    case False
    let ?s1 = "st\<lparr>reneged_customers := reneged_customers st + 1\<rparr>"
    from cb False obtain s' where s': "exit_with n ?s1 = Inr s'" "st' = finish n s'"
      by (auto simp: customer_resume_def customer_reneged_def split: sum.splits)
    have "wf (finish n s')"
    proof (rule wf_exit_finish [OF s'(1)])
      fix m assume "m \<noteq> n"
      then have "cust_ok_c (cnt ?s1) ?s1 m = cust_ok_c ?c st m"
        by (intro cust_ok_c_cong) simp_all
      with d(1) show "cust_ok_c (cnt ?s1) ?s1 m" by simp
    qed (use d(2,3) n in simp_all)
    then show ?thesis by (simp add: s'(2))
  qed
qed


lemma wf_callbacks:
  assumes "callbacks cfg d ev st = Inr st'"
    and "wf_c (\<lambda>x. (if x = ev then 1 else 0) + cnt st x) st"
  shows "wf st'"
proof (cases ev)
  case InitGen
  with assms show ?thesis by (auto elim: wf_generator_wait)
next
  case InitMon
  with assms show ?thesis by (auto elim: wf_monitor)
next
  case Until
  with assms(1) have "st' = st" by simp
  from assms(2) show ?thesis
    unfolding wf_def by (rule wf_c_neutral) (simp_all add: Until \<open>st' = st\<close>)
next
  case GenTimeout
  with assms show ?thesis by (auto elim: wf_customer_generator)
next
  case MonTimeout
  with assms show ?thesis by (auto elim: wf_monitor)
next
  case (InitCust n)
  with assms show ?thesis by (auto elim: wf_customer_start)
next
  case (ReqEv n)
  with assms show ?thesis by (auto intro: wf_ReqEv)
next
  case (PatienceEv n)
  with assms show ?thesis by (auto intro: wf_PatienceEv)
next
  case (CondEv n)
  with assms show ?thesis by (auto elim: wf_customer_resume)
next
  case (ServiceEv n)
  with assms show ?thesis by (auto elim: wf_customer_done)
next
  case (ReleaseEv n)
  with assms show ?thesis by (auto intro: wf_ReleaseEv)
next
  case (ProcEnd n)
  with assms show ?thesis by (auto intro: wf_ProcEnd)
qed

lemma wf_pop:
  assumes "wf st" "evq st = (t, p, e, ev) # rest"
  shows "wf_c (\<lambda>x. (if x = ev then 1 else 0) + cnt (st\<lparr>now := t, evq := rest\<rparr>) x)
           (st\<lparr>now := t, evq := rest\<rparr>)"
proof -
  from assms(1) have "wf_c (cnt st) st" by (simp add: wf_def)
  then show ?thesis
    by (rule wf_c_neutral) (simp_all add: cnt_pop [OF assms(2), of t])
qed

lemma wf_step:
  assumes "wf st" "step cfg d st = Inr (b, st')"
  shows "wf st'"
  using assms(2)
proof (cases rule: step_cases)
  case empty
  with assms(1) show ?thesis by simp
next
  case (stop t p e rest)
  from wf_pop [OF assms(1) stop(1)] have "wf (st\<lparr>now := t, evq := rest\<rparr>)"
    by (auto intro: wf_callbacks [of cfg d Until])
  with stop show ?thesis by simp
next
  case (event t p e ev rest)
  from event(4) wf_pop [OF assms(1) event(1)] show ?thesis by (rule wf_callbacks)
qed

lemma wf_init:
  assumes "init_state cfg g = Inr s"
  shows "wf s"
  by (rule wfI)
     (simp_all add: init_state_fields [OF assms] cust_ok_c_def new_cust_def cnt_def pending_def)


section \<open>Arrivals and outcomes\<close>

lemma filter_one_more:
  "distinct xs \<Longrightarrow> n \<in> set xs \<Longrightarrow> \<not> P n \<Longrightarrow>
   length (filter (\<lambda>m. m = n \<or> P m) xs) = Suc (length (filter P xs))"
proof (induction xs)
  case Nil
  then show ?case by simp
next
  case (Cons x xs)
  show ?case
  proof (cases "x = n")
    case True
    with Cons.prems have "n \<notin> set xs" by simp
    then have "filter (\<lambda>m. m = n \<or> P m) xs = filter P xs"
      by (intro filter_cong) auto
    with True Cons.prems show ?thesis by simp
  next
    case False
    with Cons show ?thesis by auto
  qed
qed

lemma left_count_same:
  assumes "gen_i st' = gen_i st"
    and "\<And>m. phase (custs st' m) = Finished \<longleftrightarrow> phase (custs st m) = Finished"
  shows "left_count st' = left_count st"
  by (simp add: left_count_def assms)

lemma left_count_one_more:
  assumes "gen_i st' = gen_i st" "1 \<le> n" "n \<le> gen_i st" "phase (custs st n) \<noteq> Finished"
    and "\<And>m. phase (custs st' m) = (if m = n then Finished else phase (custs st m))"
  shows "left_count st' = Suc (left_count st)"
proof -
  have "filter (\<lambda>m. phase (custs st' m) = Finished) [1..<Suc (gen_i st)] =
        filter (\<lambda>m. m = n \<or> phase (custs st m) = Finished) [1..<Suc (gen_i st)]"
    by (intro filter_cong) (auto simp: assms(5))
  moreover have "length (filter (\<lambda>m. m = n \<or> phase (custs st m) = Finished) [1..<Suc (gen_i st)])
      = Suc (length (filter (\<lambda>m. phase (custs st m) = Finished) [1..<Suc (gen_i st)]))"
    using assms(2-4) by (intro filter_one_more) auto
  ultimately show ?thesis by (simp add: left_count_def assms(1))
qed

text \<open>What the customer of the popped event looks like.\<close>

lemma popped_customer:
  assumes "wf st" "evq st = (t, p, e, ev) # rest"
  shows "ev = InitCust n \<Longrightarrow> phase (custs st n) = NotStarted \<and> 1 \<le> n \<and> n \<le> gen_i st"
    and "ev = CondEv n \<Longrightarrow> phase (custs st n) = AtRace \<and> 1 \<le> n \<and> n \<le> gen_i st"
    and "ev = ServiceEv n \<Longrightarrow> phase (custs st n) = InService \<and> 1 \<le> n \<and> n \<le> gen_i st"
proof -
  from assms(1) have ok: "cust_ok_c (cnt st) st n" by (simp add: wf_def wf_c_def)
  have c: "cnt st ev = 1 + cnt (st\<lparr>now := t, evq := rest\<rparr>) ev"
    by (simp add: cnt_pop [OF assms(2), of t])
  show "ev = InitCust n \<Longrightarrow> phase (custs st n) = NotStarted \<and> 1 \<le> n \<and> n \<le> gen_i st"
    using ok c by (auto simp: cust_ok_c_def split: phase.splits if_splits)
  show "ev = CondEv n \<Longrightarrow> phase (custs st n) = AtRace \<and> 1 \<le> n \<and> n \<le> gen_i st"
    using ok c by (auto simp: cust_ok_c_def split: phase.splits if_splits)
  show "ev = ServiceEv n \<Longrightarrow> phase (custs st n) = InService \<and> 1 \<le> n \<and> n \<le> gen_i st"
    using ok c by (auto simp: cust_ok_c_def split: phase.splits if_splits)
qed

lemma beyond_generator:
  assumes "wf st" "gen_i st < m"
  shows "phase (custs st m) = NotStarted"
proof -
  from assms(1) have "cust_ok_c (cnt st) st m" by (simp add: wf_def wf_c_def)
  with assms(2) show ?thesis by (auto simp: cust_ok_c_def split: phase.splits)
qed

text \<open>The effect of an event on the counters, the generator and the phases.\<close>

lemma phase_trigger_put [simp]: "phase (custs (trigger_put cfg st) m) = phase (custs st m)"
  by (simp add: trigger_put_def split: list.splits)

lemma counters_trigger_put [simp]:
  "served_customers (trigger_put cfg st) = served_customers st"
  "balked_customers (trigger_put cfg st) = balked_customers st"
  "reneged_customers (trigger_put cfg st) = reneged_customers st"
  "gen_i (trigger_put cfg st) = gen_i st"
  by (simp_all add: trigger_put_def split: list.splits)

lemma fields_cond_check [simp]:
  "phase (custs (cond_check n st) m) = phase (custs st m)"
  "served_customers (cond_check n st) = served_customers st"
  "balked_customers (cond_check n st) = balked_customers st"
  "reneged_customers (cond_check n st) = reneged_customers st"
  "gen_i (cond_check n st) = gen_i st"
  by (simp_all add: cond_check_def)

lemma effect_other:
  assumes "callbacks cfg d ev st = Inr st'"
    and "ev \<noteq> GenTimeout" "\<And>n. ev \<noteq> InitCust n" "\<And>n. ev \<noteq> CondEv n" "\<And>n. ev \<noteq> ServiceEv n"
  shows "gen_i st' = gen_i st" "served_customers st' = served_customers st"
    "balked_customers st' = balked_customers st" "reneged_customers st' = reneged_customers st"
    "phase (custs st' m) = phase (custs st m)"
  using assms
  by (cases ev; auto simp: generator_wait_def monitor_queue_length_def expovariate_def timeout_def
        request_processed_def split: if_splits)+

lemma effect_generator:
  assumes "callbacks cfg d GenTimeout st = Inr st'"
  shows "gen_i st' = gen_i st + 1" "served_customers st' = served_customers st"
    "balked_customers st' = balked_customers st" "reneged_customers st' = reneged_customers st"
    "phase (custs st' m) = phase (custs st m)"
  using assms
  by (auto simp: customer_generator_def generator_wait_def expovariate_def timeout_def Let_def
           split: if_splits)

lemma effect_start:
  assumes "callbacks cfg d (InitCust n) st = Inr st'"
  shows "gen_i st' = gen_i st" "served_customers st' = served_customers st"
    "reneged_customers st' = reneged_customers st"
    "MAX_QUEUE_LENGTH cfg \<le> length (queue st) \<Longrightarrow>
       balked_customers st' = balked_customers st + 1 \<and>
       phase (custs st' m) = (if m = n then Finished else phase (custs st m))"
    "\<not> MAX_QUEUE_LENGTH cfg \<le> length (queue st) \<Longrightarrow>
       balked_customers st' = balked_customers st \<and>
       phase (custs st' m) = (if m = n then AtRace else phase (custs st m))"
  using assms
  by (auto simp: customer_start_def finish_def request_def timeout_def split: if_splits)

lemma effect_resume:
  assumes "callbacks cfg d (CondEv n) st = Inr st'"
  shows "gen_i st' = gen_i st" "served_customers st' = served_customers st"
    "balked_customers st' = balked_customers st"
    "req_processed (custs st n) \<Longrightarrow>
       reneged_customers st' = reneged_customers st \<and>
       phase (custs st' m) = (if m = n then InService else phase (custs st m))"
    "\<not> req_processed (custs st n) \<Longrightarrow>
       reneged_customers st' = reneged_customers st + 1 \<and>
       phase (custs st' m) = (if m = n then Finished else phase (custs st m))"
  using assms
  by (auto simp: customer_resume_def customer_served_def customer_reneged_def finish_def
        exit_with_def cancel_def release_def expovariate_def timeout_def Let_def
      split: if_splits sum.splits)

lemma effect_done:
  assumes "callbacks cfg d (ServiceEv n) st = Inr st'"
  shows "gen_i st' = gen_i st" "served_customers st' = served_customers st + 1"
    "balked_customers st' = balked_customers st" "reneged_customers st' = reneged_customers st"
    "phase (custs st' m) = (if m = n then Finished else phase (custs st m))"
  using assms
  by (auto simp: customer_done_def finish_def exit_with_def cancel_def release_def
      split: if_splits sum.splits)


lemma left_count_pop [simp]: "left_count (st\<lparr>now := t, evq := rest\<rparr>) = left_count st"
  by (simp add: left_count_def)

lemma left_count_extend:
  assumes "gen_i st' = gen_i st + 1" "phase (custs st (gen_i st + 1)) \<noteq> Finished"
    and "\<And>m. phase (custs st' m) = phase (custs st m)"
  shows "left_count st' = left_count st"
  using assms(2) by (simp add: left_count_def assms(1,3))

lemma accounted_other:
  assumes cb: "callbacks cfg d ev st = Inr st'"
    and ev: "ev \<noteq> GenTimeout" "\<And>n. ev \<noteq> InitCust n" "\<And>n. ev \<noteq> CondEv n"
      "\<And>n. ev \<noteq> ServiceEv n"
    and acc: "served_customers st + balked_customers st + reneged_customers st = left_count st"
  shows "accounted st'"
proof -
  note e = effect_other [OF cb ev]
  have "left_count st' = left_count st"
    by (rule left_count_same [OF e(1)]) (simp add: e(5))
  with acc e(2-4) show ?thesis by (simp add: accounted_def)
qed

lemma accounted_step:
  assumes wf: "wf st" and acc: "accounted st" and step: "step cfg d st = Inr (b, st')"
  shows "accounted st'"
  using step
proof (cases rule: step_cases)
  case empty
  with acc show ?thesis by simp
next
  case (stop t p e rest)
  with acc show ?thesis by (simp add: accounted_def)
next
  case (event t p e ev rest)
  let ?s1 = "st\<lparr>now := t, evq := rest\<rparr>"
  note pc = popped_customer [OF wf event(1)]
  from acc have acc1: "served_customers ?s1 + balked_customers ?s1 + reneged_customers ?s1
      = left_count ?s1"
    by (simp add: accounted_def)
  show ?thesis
  proof (cases ev)
    case GenTimeout
    note e = effect_generator [OF event(4) [unfolded GenTimeout]]
    have "phase (custs ?s1 (gen_i ?s1 + 1)) \<noteq> Finished"
      using beyond_generator [OF wf, of "gen_i st + 1"] by simp
    from left_count_extend [of st' ?s1, OF e(1) this e(5)] acc1 e(2-4)
    show ?thesis by (simp add: accounted_def)
  next
    case (InitCust n)
    note e = effect_start [OF event(4) [unfolded InitCust]]
    from pc(1) [OF InitCust] have n: "phase (custs ?s1 n) \<noteq> Finished" "1 \<le> n" "n \<le> gen_i ?s1"
      by simp_all
    show ?thesis
    proof (cases "MAX_QUEUE_LENGTH cfg \<le> length (queue ?s1)")
      case True
      from e(4) [OF True] have "balked_customers st' = balked_customers ?s1 + 1"
        and ph: "\<And>m. phase (custs st' m) = (if m = n then Finished else phase (custs ?s1 m))"
        by simp_all
      with left_count_one_more [of st' ?s1 n, OF e(1) n(2,3,1) ph] acc1 e(2,3)
      show ?thesis by (simp add: accounted_def)
    next
      case False
      from e(5) [OF False] have "balked_customers st' = balked_customers ?s1"
        and ph: "\<And>m. phase (custs st' m) = (if m = n then AtRace else phase (custs ?s1 m))"
        by simp_all
      moreover have "left_count st' = left_count ?s1"
        using n(1) by (intro left_count_same [OF e(1)]) (simp add: ph)
      ultimately show ?thesis using acc1 e(2,3) by (simp add: accounted_def)
    qed
  next
    case (CondEv n)
    note e = effect_resume [OF event(4) [unfolded CondEv]]
    from pc(2) [OF CondEv] have n: "phase (custs ?s1 n) \<noteq> Finished" "1 \<le> n" "n \<le> gen_i ?s1"
      by simp_all
    show ?thesis
    proof (cases "req_processed (custs ?s1 n)")
      case True
      from e(4) [OF True] have "reneged_customers st' = reneged_customers ?s1"
        and ph: "\<And>m. phase (custs st' m) = (if m = n then InService else phase (custs ?s1 m))"
        by simp_all
      moreover have "left_count st' = left_count ?s1"
        using n(1) by (intro left_count_same [OF e(1)]) (simp add: ph)
      ultimately show ?thesis using acc1 e(2,3) by (simp add: accounted_def)
    next
      case False
      from e(5) [OF False] have "reneged_customers st' = reneged_customers ?s1 + 1"
        and ph: "\<And>m. phase (custs st' m) = (if m = n then Finished else phase (custs ?s1 m))"
        by simp_all
      with left_count_one_more [of st' ?s1 n, OF e(1) n(2,3,1) ph] acc1 e(2,3)
      show ?thesis by (simp add: accounted_def)
    qed
  next
    case (ServiceEv n)
    note e = effect_done [OF event(4) [unfolded ServiceEv]]
    from pc(3) [OF ServiceEv] have n: "phase (custs ?s1 n) \<noteq> Finished" "1 \<le> n" "n \<le> gen_i ?s1"
      by simp_all
    from left_count_one_more [of st' ?s1 n, OF e(1) n(2,3,1) e(5)] acc1 e(2-4)
    show ?thesis by (simp add: accounted_def)
  qed (rule accounted_other [OF event(4)]; use acc1 in simp)+
qed


subsection \<open>A customer starts at the instant it is generated\<close>

lemma new_inits:
  assumes "callbacks cfg d ev st = Inr st'" "x \<in> set (evq st')" "is_init (event_of x)"
  shows "x \<in> set (evq st) \<or> time_of x = now st"
  using assms
  by (cases ev)
     (auto simp: ops_defs Let_def split: if_splits sum.splits list.splits prod.splits)

lemma inits_early_step:
  assumes q: "queue_ok cfg st" and i: "inits_early cfg st"
    and step: "step cfg d st = Inr (False, st')"
  shows "inits_early cfg st'"
  using step
proof (cases rule: step_cases)
  case (event t p e ev rest)
  let ?s1 = "st\<lparr>now := t, evq := rest\<rparr>"
  from queue_okD(8) [OF queue_ok_pop [OF q event(1,2)]] have t: "t < SIMULATION_TIME cfg"
    by simp
  show ?thesis
    unfolding inits_early_def
  proof (intro ballI impI)
    fix x assume x: "x \<in> set (evq st')" "is_init (event_of x)"
    from new_inits [OF event(4) x] have "x \<in> set rest \<or> time_of x = t" by simp
    then show "time_of x < SIMULATION_TIME cfg"
    proof
      assume "x \<in> set rest"
      with event(1) have "x \<in> set (evq st)" by simp
      with i x(2) show ?thesis by (simp add: inits_early_def)
    next
      assume "time_of x = t"
      with t show ?thesis by simp
    qed
  qed
qed simp_all

lemma inits_early_init: "init_state cfg g = Inr s \<Longrightarrow> inits_early cfg s"
  by (simp add: inits_early_def init_state_fields)

lemma running_inits:
  assumes "during_run cfg d g k = Some st"
  shows "queue_ok cfg st \<and> inits_early cfg st"
  by (rule during_running [where I = "\<lambda>s. queue_ok cfg s \<and> inits_early cfg s", OF assms])
     (auto intro: queue_ok_init inits_early_init queue_ok_step inits_early_step)

text \<open>When the run stops, every generated customer has started.\<close>

lemma started_at_stop:
  assumes q: "queue_ok cfg st" and i: "inits_early cfg st" and wf: "wf st'"
    and stop: "step cfg d st = Inr (True, st')"
    and n: "1 \<le> n" "n \<le> gen_i st'"
  shows "phase (custs st' n) \<noteq> NotStarted"
proof
  assume ns: "phase (custs st' n) = NotStarted"
  from wf have "cust_ok_c (cnt st') st' n" by (simp add: wf_def wf_c_def)
  with ns n have "cnt st' (InitCust n) = 1" by (simp add: cust_ok_c_def)
  then have "0 < pending (\<lambda>x. x = InitCust n) st'" by (simp add: cnt_def)
  from pending_pos [OF this] obtain x where x: "x \<in> set (evq st')" "event_of x = InitCust n"
    by blast
  from stop show False
  proof (cases rule: step_cases)
    case empty
    with queue_okD(6) [OF q] show ?thesis by simp
  next
    case (stop t p e rest)
    have "(t, p, e, Until) \<in> set (evq st)" by (simp add: stop(1))
    from queue_okD(5) [OF q this] have hd: "(t, p, e, Until) = (SIMULATION_TIME cfg, URGENT, 2, Until)"
      by simp
    from x stop have xr: "x \<in> set rest" by simp
    with queue_okD(1) [OF q] stop(1) hd have "key_less (SIMULATION_TIME cfg, URGENT, 2, Until) x"
      by auto
    from key_less_time [OF this] have "SIMULATION_TIME cfg \<le> time_of x" by simp
    moreover from xr stop(1) have "x \<in> set (evq st)" by simp
    with i x(2) have "time_of x < SIMULATION_TIME cfg" by (simp add: inits_early_def)
    ultimately show ?thesis by simp
  next
    case (event t p e ev rest)
    then show ?thesis by simp
  qed
qed

lemma phases_partition:
  "length (filter (\<lambda>n. f n = Finished) xs) +
   length (filter (\<lambda>n. f n = AtRace \<or> f n = InService) xs) +
   length (filter (\<lambda>n. f n = NotStarted) xs) = length xs"
proof (induction xs)
  case Nil
  then show ?case by simp
next
  case (Cons x xs)
  then show ?case by (cases "f x") simp_all
qed

lemma accounted_init: "init_state cfg g = Inr s \<Longrightarrow> accounted s"
  by (simp add: accounted_def left_count_def init_state_fields)

lemma accounted_run:
  assumes "during_run cfg d g k = Some st \<or> final_state cfg d g fuel = Inr (Some st)"
  shows "wf st \<and> accounted st"
proof (rule run_invariant [where I = "\<lambda>s. wf s \<and> accounted s", OF _ _ assms])
  fix s b s' assume "wf s \<and> accounted s" "step cfg d s = Inr (b, s')"
  then show "wf s' \<and> accounted s'"
    using wf_step [of s cfg d b s'] accounted_step [of s cfg d b s'] by blast
next
  fix s assume "init_state cfg g = Inr s"
  then show "wf s \<and> accounted s" by (simp add: wf_init accounted_init)
qed


text \<open>
  Claim C3 says that at the end of a run served, balked and reneged customers add up to
  the number of arrivals generated.  They do not: a customer that is waiting for a
  teller or is in service when the horizon is reached is counted in none of the three.
  With \<open>stream_b\<close> one customer arrives, at time 1, and its service lasts beyond the
  horizon: the run ends with one arrival and all three counters at 0.
\<close>

theorem C3_customer_in_service_not_counted:
  "case final_state source_config stream_b 0 107 of
     Inr (Some st) \<Rightarrow>
       gen_i st = 1 \<and>
       served_customers st + balked_customers st + reneged_customers st = 0 \<and>
       served_customers st + balked_customers st + reneged_customers st \<noteq> gen_i st
   | _ \<Rightarrow> False"
  using final_stream_b
  by (auto simp: result_of_def split: sum.splits option.splits)

text \<open>
  Claim C3 as amended: at the end of a run, the served, balked and reneged customers
  together with the customers that are still in the bank (waiting for a teller or in
  service) are the arrivals generated.
\<close>

theorem C3_arrivals_accounted:
  assumes "final_state cfg draws g fuel = Inr (Some st)"
  shows "served_customers st + balked_customers st + reneged_customers st +
           length (in_bank st) = gen_i st"
proof -
  from assms obtain k st0
    where st0: "during_run cfg draws g k = Some st0" "step cfg draws st0 = Inr (True, st)"
    by (rule final_state_last)
  from running_inits [OF st0(1)] have q: "queue_ok cfg st0" "inits_early cfg st0" by simp_all
  from accounted_run [of cfg draws g 0 st fuel] assms have wf: "wf st" and acc: "accounted st"
    by simp_all
  have "filter (\<lambda>n. phase (custs st n) = NotStarted) [1..<Suc (gen_i st)] = []"
    using started_at_stop [OF q wf st0(2)] by (auto simp: filter_empty_conv)
  with phases_partition [of "\<lambda>n. phase (custs st n)" "[1..<Suc (gen_i st)]"]
  have "left_count st + length (in_bank st) = gen_i st"
    by (simp add: left_count_def in_bank_def)
  with acc show ?thesis by (simp add: accounted_def)
qed

theorem C3_arrivals_accounted_witness:
  "\<exists>st. final_state source_config stream_c 0 200 = Inr (Some st) \<and>
     gen_i st = 6 \<and> served_customers st = 0 \<and> balked_customers st = 1 \<and>
     reneged_customers st = 3 \<and> length (in_bank st) = 2"
proof -
  from final_stream_c obtain st
    where st: "final_state source_config stream_c 0 200 = Inr (Some st)" "gen_i st = 6"
      "result_of st = \<lparr>served = 0, balked = 1, reneged = 3, wait_times = [0, 0],
                       queue_samples = [0, 3, 3, 3, 3, 3, 3] @ replicate 93 0,
                       busy_time = 1 / 5\<rparr>"
    by (auto split: sum.splits option.splits)
  from st(3) have c: "served_customers st = 0" "balked_customers st = 1" "reneged_customers st = 3"
    by (simp_all add: result_of_def)
  from C3_arrivals_accounted [OF st(1)] c st(2) have "length (in_bank st) = 2" by simp
  with st(1,2) c show ?thesis by blast
qed

section \<open>The race between grant and patience\<close>


















section \<open>Waits recorded before the first service ends\<close>

lemma race_ok_c_phase: "phase c \<noteq> AtRace \<Longrightarrow> race_ok_c Q n c"
  by (simp add: race_ok_c_def)

lemma race_ok_c_others:
  assumes "race_ok_c Q m c"
    and "\<And>x. x \<in> Q' \<Longrightarrow> x \<in> Q \<or>
           (event_of x \<noteq> ReqEv m \<and> event_of x \<noteq> PatienceEv m \<and> event_of x \<noteq> CondEv m)"
  shows "race_ok_c Q' m c"
  using assms unfolding race_ok_c_def by blast

lemma race_ok_c_insert:
  "race_ok_c Q m c \<Longrightarrow> event_of x \<noteq> ReqEv m \<Longrightarrow> event_of x \<noteq> PatienceEv m \<Longrightarrow>
   event_of x \<noteq> CondEv m \<Longrightarrow> race_ok_c (insert x Q) m c"
  by (erule race_ok_c_others) blast

lemma race_ok_c_mono: "race_ok_c Q m c \<Longrightarrow> Q' \<subseteq> Q \<Longrightarrow> race_ok_c Q' m c"
  by (erule race_ok_c_others) blast

lemma unserved_okD:
  assumes "unserved_ok cfg st"
  shows "\<And>w. w \<in> set (waiting_times st) \<Longrightarrow> w = 0"
    and "queue st \<noteq> [] \<Longrightarrow> NUM_TELLERS cfg \<le> length (users st)"
    and "race_ok_c (set (evq st)) n (custs st n)"
  using assms unfolding unserved_ok_def by blast+

lemma unserved_okI:
  assumes "\<And>w. w \<in> set (waiting_times st) \<Longrightarrow> w = 0"
    and "queue st \<noteq> [] \<Longrightarrow> NUM_TELLERS cfg \<le> length (users st)"
    and "\<And>n. race_ok_c (set (evq st)) n (custs st n)"
  shows "unserved_ok cfg st"
  unfolding unserved_ok_def using assms by blast

lemma cnt_zero: "cnt st ev = 0 \<Longrightarrow> x \<in> set (evq st) \<Longrightarrow> event_of x \<noteq> ev"
  using pending_zero [of "\<lambda>x. x = ev" st x] by (auto simp: cnt_def)

lemma cnt_pos: "0 < cnt st ev \<Longrightarrow> \<exists>x \<in> set (evq st). event_of x = ev"
  using pending_pos [of "\<lambda>x. x = ev" st] by (auto simp: cnt_def)

lemma key_less_asym: "key_less x y \<Longrightarrow> \<not> key_less y x"
  by (cases x; cases y) auto

lemma trigger_put_full:
  "(queue st \<noteq> [] \<longrightarrow> NUM_TELLERS cfg \<le> length (users st)) \<Longrightarrow> trigger_put cfg st = st"
  by (cases "queue st") (auto simp: trigger_put_def)

lemma unserved_pop:
  assumes "unserved_ok cfg st" "evq st = x # rest"
  shows "unserved_ok cfg (st\<lparr>now := t, evq := rest\<rparr>)"
proof (rule unserved_okI)
  fix n
  from unserved_okD(3) [OF assms(1), of n] assms(2)
  show "race_ok_c (set (evq (st\<lparr>now := t, evq := rest\<rparr>))) n (custs (st\<lparr>now := t, evq := rest\<rparr>) n)"
    by (auto elim: race_ok_c_mono)
qed (use unserved_okD(1,2) [OF assms(1)] in simp_all)

lemma neutral_fields:
  assumes cb: "callbacks cfg d ev st = Inr st'"
    and ev: "ev = InitGen \<or> ev = GenTimeout \<or> ev = InitMon \<or> ev = MonTimeout \<or> ev = ProcEnd n"
  shows "waiting_times st' = waiting_times st" "queue st' = queue st" "users st' = users st"
    "custs st' = custs st"
    "\<And>x. x \<in> set (evq st') \<Longrightarrow> x \<in> set (evq st) \<or> event_of x = GenTimeout \<or>
       event_of x = MonTimeout \<or> (\<exists>k. event_of x = InitCust k)"
  using assms
  by (auto simp: generator_wait_def customer_generator_def monitor_queue_length_def
        expovariate_def timeout_def schedule_def Let_def split: if_splits)

lemma unserved_neutral:
  assumes K: "unserved_ok cfg st" and cb: "callbacks cfg d ev st = Inr st'"
    and ev: "ev = InitGen \<or> ev = GenTimeout \<or> ev = InitMon \<or> ev = MonTimeout \<or> ev = ProcEnd n"
  shows "unserved_ok cfg st'"
proof (rule unserved_okI)
  note f = neutral_fields [OF cb ev]
  fix m
  show "race_ok_c (set (evq st')) m (custs st' m)"
    unfolding f(4)
  proof (rule race_ok_c_others [OF unserved_okD(3) [OF K]])
    fix x assume "x \<in> set (evq st')"
    from f(5) [OF this]
    show "x \<in> set (evq st) \<or>
           (event_of x \<noteq> ReqEv m \<and> event_of x \<noteq> PatienceEv m \<and> event_of x \<noteq> CondEv m)"
      by auto
  qed
qed (use unserved_okD(1,2) [OF K] neutral_fields(1,2,3) [OF cb ev] in simp_all)

lemma unserved_release:
  assumes K: "unserved_ok cfg st" and cb: "callbacks cfg d (ReleaseEv n) st = Inr st'"
  shows "unserved_ok cfg st'"
  using assms trigger_put_full [of st cfg] unserved_okD(2) [OF K] by auto

lemma unserved_start:
  assumes K: "unserved_ok cfg st"
    and none: "\<And>x. x \<in> set (evq st) \<Longrightarrow>
       event_of x \<noteq> ReqEv n \<and> event_of x \<noteq> PatienceEv n \<and> event_of x \<noteq> CondEv n"
    and cb: "callbacks cfg d (InitCust n) st = Inr st'"
  shows "unserved_ok cfg st'"
proof -
  note k = unserved_okD [OF K]
  consider (balk) "MAX_QUEUE_LENGTH cfg \<le> length (queue st)"
    | (wait) "\<not> MAX_QUEUE_LENGTH cfg \<le> length (queue st)"
        "queue st \<noteq> [] \<or> \<not> length (users st) < NUM_TELLERS cfg"
    | (grant) "\<not> MAX_QUEUE_LENGTH cfg \<le> length (queue st)"
        "queue st = []" "length (users st) < NUM_TELLERS cfg"
    by blast
  then show ?thesis
  proof cases
    case balk
    with cb have f: "waiting_times st' = waiting_times st" "queue st' = queue st"
      "users st' = users st" "custs st' = (custs st)(n := (custs st n)\<lparr>phase := Finished\<rparr>)"
      "set (evq st') = insert (now st + 0, NORMAL, eid st, ProcEnd n) (set (evq st))"
      by (auto simp: customer_start_def finish_def schedule_def)
    show ?thesis
    proof (rule unserved_okI)
      fix m
      show "race_ok_c (set (evq st')) m (custs st' m)"
      proof (cases "m = n")
        case True
        then show ?thesis by (simp add: f(4) race_ok_c_phase)
      next
        case False
        then have "custs st' m = custs st m" by (simp add: f(4))
        then show ?thesis unfolding f(5)
          by (simp add: race_ok_c_insert k(3))
      qed
    qed (use k(1,2) f(1,2,3) in simp_all)
  next
    case wait
    from wait(2) k(2) have full: "NUM_TELLERS cfg \<le> length (users st)" by auto
    let ?c = "\<lparr>arrival_time = now st, phase = AtRace, req_triggered = False,
               req_processed = False, cond_triggered = False\<rparr>"
    let ?s2 = "st\<lparr>custs := (custs st)(n := ?c)\<rparr>"
    from full have "request cfg n ?s2 = ?s2\<lparr>queue := queue st @ [n]\<rparr>"
      by (cases "queue st") (simp_all add: request_def trigger_put_def)
    with cb wait(1) have f: "waiting_times st' = waiting_times st" "queue st' = queue st @ [n]"
      "users st' = users st" "custs st' = (custs st)(n := ?c)"
      "set (evq st') =
         insert (now st + MAX_WAIT_TIME cfg, NORMAL, eid st, PatienceEv n) (set (evq st))"
      by (auto simp: customer_start_def timeout_def schedule_def split: if_splits)
    show ?thesis
    proof (rule unserved_okI)
      fix m
      show "race_ok_c (set (evq st')) m (custs st' m)"
      proof (cases "m = n")
        case True
        then show ?thesis by (simp add: f(4) race_ok_c_def)
      next
        case False
        then have "custs st' m = custs st m" by (simp add: f(4))
        then show ?thesis unfolding f(5)
          using False by (simp add: race_ok_c_insert k(3))
      qed
    qed (use k(1) full f(1,2,3) in simp_all)
  next
    case grant
    let ?c = "\<lparr>arrival_time = now st, phase = AtRace, req_triggered = True,
               req_processed = False, cond_triggered = False\<rparr>"
    let ?r = "(now st + 0, NORMAL, eid st, ReqEv n)"
    let ?p = "(now st + MAX_WAIT_TIME cfg, NORMAL, eid st + 1, PatienceEv n)"
    from cb grant have f: "waiting_times st' = waiting_times st" "queue st' = []"
      "custs st' = (custs st)(n := ?c)"
      "set (evq st') = insert ?p (insert ?r (set (evq st)))"
      and M: "0 \<le> MAX_WAIT_TIME cfg"
      by (auto simp: customer_start_def request_def trigger_put_def timeout_def schedule_def
               split: if_splits)
    show ?thesis
    proof (rule unserved_okI)
      fix m
      show "race_ok_c (set (evq st')) m (custs st' m)"
      proof (cases "m = n")
        case True
        have "race_ok_c (insert ?p (insert ?r (set (evq st)))) n ?c"
          using none M by (auto simp: race_ok_c_def)
        with True show ?thesis by (simp add: f(3,4))
      next
        case False
        then have "custs st' m = custs st m" by (simp add: f(3))
        then show ?thesis unfolding f(4)
          using False by (simp add: race_ok_c_insert k(3))
      qed
    qed (use k(1) f(1,2) in simp_all)
  qed
qed

lemma race_counts:
  assumes "wf st" "phase (custs st n) = AtRace"
  shows "cnt st (CondEv n) = (if cond_triggered (custs st n) then 1 else 0)"
    and "cnt st (ReqEv n) =
           (if req_triggered (custs st n) \<and> \<not> req_processed (custs st n) then 1 else 0)"
    and "\<not> cond_triggered (custs st n) \<Longrightarrow> cnt st (PatienceEv n) = 1"
    and "req_processed (custs st n) \<Longrightarrow> req_triggered (custs st n) \<and> cond_triggered (custs st n)"
    and "n \<in> set (queue st) \<longleftrightarrow> \<not> req_triggered (custs st n)"
    and "n \<in> set (users st) \<longleftrightarrow> req_triggered (custs st n)"
proof -
  from assms(1) have ok: "cust_ok_c (cnt st) st n" by (simp add: wf_def wf_c_def)
  with assms(2) show "cnt st (CondEv n) = (if cond_triggered (custs st n) then 1 else 0)"
    and "cnt st (ReqEv n) =
           (if req_triggered (custs st n) \<and> \<not> req_processed (custs st n) then 1 else 0)"
    and "\<not> cond_triggered (custs st n) \<Longrightarrow> cnt st (PatienceEv n) = 1"
    and "req_processed (custs st n) \<Longrightarrow> req_triggered (custs st n) \<and> cond_triggered (custs st n)"
    and "n \<in> set (queue st) \<longleftrightarrow> \<not> req_triggered (custs st n)"
    and "n \<in> set (users st) \<longleftrightarrow> req_triggered (custs st n)"
    by (simp_all add: cust_ok_c_def)
qed

lemma cnt_head: "evq st = (t, p, e, ev) # rest \<Longrightarrow> 0 < cnt st ev"
  by (simp add: cnt_def pending_def)

lemma unserved_request_event:
  assumes wf: "wf st" and K: "unserved_ok cfg st" and q: "evq st = (t, p, e, ReqEv n) # rest"
    and cb: "callbacks cfg d (ReqEv n) (st\<lparr>now := t, evq := rest\<rparr>) = Inr st'"
  shows "unserved_ok cfg st'"
proof -
  let ?s1 = "st\<lparr>now := t, evq := rest\<rparr>"
  note k = unserved_okD [OF K]
  have K1: "unserved_ok cfg ?s1" by (rule unserved_pop [OF K q])
  note k1 = unserved_okD [OF K1]
  have race: "phase (custs st n) = AtRace \<Longrightarrow>
    \<not> cond_triggered (custs st n) \<and> t = arrival_time (custs st n) \<and>
    (\<forall>x \<in> set rest. event_of x \<noteq> CondEv n)"
  proof -
    assume ph: "phase (custs st n) = AtRace"
    from race_counts(2) [OF wf ph] cnt_head [OF q]
    have tr: "req_triggered (custs st n) \<and> \<not> req_processed (custs st n)"
      by (simp split: if_splits)
    from k(3) [of n] ph tr q have a: "\<not> cond_triggered (custs st n)"
      and b: "t = arrival_time (custs st n)"
      by (auto simp: race_ok_c_def)
    from race_counts(1) [OF wf ph] a have "cnt st (CondEv n) = 0" by simp
    from cnt_zero [OF this] q have "\<forall>x \<in> set rest. event_of x \<noteq> CondEv n" by simp
    with a b show ?thesis by blast
  qed
  show ?thesis
  proof (cases "cond_triggered (custs st n)")
    case True
    with cb have f: "waiting_times st' = waiting_times st" "queue st' = queue st"
      "users st' = users st"
      "custs st' = (custs st)(n := (custs st n)\<lparr>req_processed := True\<rparr>)"
      "set (evq st') = set rest"
      by (auto simp: request_processed_def cond_check_def)
    from True race have ph: "phase (custs st n) \<noteq> AtRace" by blast
    show ?thesis
    proof (rule unserved_okI)
      fix m
      show "race_ok_c (set (evq st')) m (custs st' m)"
      proof (cases "m = n")
        case True
        with ph show ?thesis by (simp add: f(4) race_ok_c_phase)
      next
        case False
        with k1(3) [of m] show ?thesis by (simp add: f(4,5))
      qed
    qed (use k(1,2) f(1,2,3) in simp_all)
  next
    case False
    let ?x = "(t + 0, NORMAL, eid st, CondEv n)"
    from False cb have f: "waiting_times st' = waiting_times st" "queue st' = queue st"
      "users st' = users st"
      "custs st' = (custs st)(n := (custs st n)\<lparr>req_processed := True, cond_triggered := True\<rparr>)"
      "set (evq st') = insert ?x (set rest)"
      by (auto simp: request_processed_def cond_check_def schedule_def)
    show ?thesis
    proof (rule unserved_okI)
      fix m
      show "race_ok_c (set (evq st')) m (custs st' m)"
      proof (cases "m = n")
        case True
        show ?thesis
        proof (cases "phase (custs st n) = AtRace")
          case True
          with race have "t = arrival_time (custs st n)"
            "\<forall>x \<in> set rest. event_of x \<noteq> CondEv n" by blast+
          then show ?thesis using \<open>m = n\<close> by (auto simp: f(4,5) race_ok_c_def)
        next
          case False
          with \<open>m = n\<close> show ?thesis by (simp add: f(4) race_ok_c_phase)
        qed
      next
        case False
        with k1(3) [of m] show ?thesis by (simp add: f(4,5) race_ok_c_insert)
      qed
    qed (use k(1,2) f(1,2,3) in simp_all)
  qed
qed

lemma unserved_patience_event:
  assumes wf: "wf st" and K: "unserved_ok cfg st" and srt: "sorted_wrt key_less (evq st)"
    and q: "evq st = (t, p, e, PatienceEv n) # rest"
    and cb: "callbacks cfg d (PatienceEv n) (st\<lparr>now := t, evq := rest\<rparr>) = Inr st'"
  shows "unserved_ok cfg st'"
proof (cases "cond_triggered (custs st n)")
  case True
  with cb have "st' = st\<lparr>now := t, evq := rest\<rparr>" by (simp add: cond_check_def)
  then show ?thesis using unserved_pop [OF K q] by simp
next
  case False
  let ?s1 = "st\<lparr>now := t, evq := rest\<rparr>"
  let ?x = "(t + 0, NORMAL, eid st, CondEv n)"
  note k = unserved_okD [OF K]
  note k1 = unserved_okD [OF unserved_pop [OF K q, of t]]
  from False cb have f: "waiting_times st' = waiting_times st" "queue st' = queue st"
    "users st' = users st"
    "custs st' = (custs st)(n := (custs st n)\<lparr>cond_triggered := True\<rparr>)"
    "set (evq st') = insert ?x (set rest)"
    by (auto simp: cond_check_def schedule_def)
  have race: "\<not> req_triggered (custs st n) \<and> \<not> req_processed (custs st n)"
    if ph: "phase (custs st n) = AtRace"
  proof -
    from race_counts(4) [OF wf ph] False have np: "\<not> req_processed (custs st n)" by blast
    have "\<not> req_triggered (custs st n)"
    proof
      assume tr: "req_triggered (custs st n)"
      with race_counts(2) [OF wf ph] np have "0 < cnt st (ReqEv n)" by simp
      from cnt_pos [OF this] obtain x where x: "x \<in> set (evq st)" "event_of x = ReqEv n"
        by blast
      with q have xr: "x \<in> set rest" by auto
      from k(3) [of n] ph tr np x q have "key_less x (t, p, e, PatienceEv n)"
        by (auto simp: race_ok_c_def)
      moreover from srt q xr have "key_less (t, p, e, PatienceEv n) x" by simp
      ultimately show False by (blast dest: key_less_asym)
    qed
    with np show ?thesis by blast
  qed
  show ?thesis
  proof (rule unserved_okI)
    fix m
    show "race_ok_c (set (evq st')) m (custs st' m)"
    proof (cases "m = n")
      case True
      show ?thesis
      proof (cases "phase (custs st n) = AtRace")
        case True
        from race [OF this] \<open>m = n\<close> show ?thesis by (simp add: f(4) race_ok_c_def)
      next
        case False
        with \<open>m = n\<close> show ?thesis by (simp add: f(4) race_ok_c_phase)
      qed
    next
      case False
      with k1(3) [of m] show ?thesis by (simp add: f(4,5) race_ok_c_insert)
    qed
  qed (use k(1,2) f(1,2,3) in simp_all)
qed

lemma unserved_resume:
  assumes wf: "wf st" and K: "unserved_ok cfg st"
    and q: "evq st = (t, p, e, CondEv n) # rest"
    and cb: "callbacks cfg d (CondEv n) (st\<lparr>now := t, evq := rest\<rparr>) = Inr st'"
  shows "unserved_ok cfg st'"
proof -
  let ?s1 = "st\<lparr>now := t, evq := rest\<rparr>"
  note k = unserved_okD [OF K]
  note k1 = unserved_okD [OF unserved_pop [OF K q, of t]]
  from popped_customer(2) [OF wf q] have ph: "phase (custs st n) = AtRace" by simp
  from race_counts(1) [OF wf ph] cnt_head [OF q] have ct: "cond_triggered (custs st n)"
    by (simp split: if_splits)
  show ?thesis
  proof (cases "req_processed (custs st n)")
    case True
    from k(3) [of n] ph True q have t: "t = arrival_time (custs st n)"
      by (auto simp: race_ok_c_def)
    from cb True obtain x where f: "waiting_times st' = waiting_times st @ [t - arrival_time (custs st n)]"
      "queue st' = queue st" "users st' = users st"
      "custs st' = (custs st)(n := (custs st n)\<lparr>phase := InService\<rparr>)"
      "set (evq st') = insert x (set rest)" "event_of x = ServiceEv n"
      by (auto simp: customer_resume_def customer_served_def expovariate_def timeout_def
            schedule_def Let_def split: if_splits)
    show ?thesis
    proof (rule unserved_okI)
      fix m
      show "race_ok_c (set (evq st')) m (custs st' m)"
      proof (cases "m = n")
        case True
        then show ?thesis by (simp add: f(4) race_ok_c_phase)
      next
        case False
        with k1(3) [of m] show ?thesis by (simp add: f(4,5,6) race_ok_c_insert)
      qed
    qed (use k(1,2) f(1,2,3) t in auto)
  next
    case False
    from k(3) [of n] ph ct False have nt: "\<not> req_triggered (custs st n)"
      by (simp add: race_ok_c_def)
    with race_counts(6) [OF wf ph] have nu: "n \<notin> set (users st)" by simp
    from cb False nt nu obtain x y where f: "waiting_times st' = waiting_times st"
      "queue st' = remove1 n (queue st)" "users st' = users st"
      "custs st' = (custs st)(n := (custs st n)\<lparr>phase := Finished\<rparr>)"
      "set (evq st') = insert x (insert y (set rest))" "event_of x = ProcEnd n"
      "event_of y = ReleaseEv n"
      by (auto simp: customer_resume_def customer_reneged_def exit_with_def cancel_def
            release_def finish_def schedule_def remove1_idem split: if_splits)
    have q2: "queue st' \<noteq> [] \<Longrightarrow> queue st \<noteq> []" by (auto simp: f(2))
    show ?thesis
    proof (rule unserved_okI)
      fix m
      show "race_ok_c (set (evq st')) m (custs st' m)"
      proof (cases "m = n")
        case True
        then show ?thesis by (simp add: f(4) race_ok_c_phase)
      next
        case False
        with k1(3) [of m] show ?thesis by (simp add: f(4,5,6,7) race_ok_c_insert)
      qed
    qed (use k(1,2) f(1,3) q2 in auto)
  qed
qed

lemma served_callbacks:
  assumes "callbacks cfg d ev st = Inr st'"
  shows "served_customers st \<le> served_customers st'"
proof (cases ev)
  case GenTimeout
  with effect_generator(2) [of cfg d st st'] assms show ?thesis by simp
next
  case (InitCust n)
  with effect_start(2) [of cfg d n st st'] assms show ?thesis by simp
next
  case (CondEv n)
  with effect_resume(2) [of cfg d n st st'] assms show ?thesis by simp
next
  case (ServiceEv n)
  with effect_done(2) [of cfg d n st st'] assms show ?thesis by simp
qed (use effect_other(2) [OF assms] in simp_all)

lemma unserved_step:
  assumes wf: "wf st" and qok: "queue_ok cfg st"
    and K: "served_customers st = 0 \<longrightarrow> unserved_ok cfg st"
    and step: "step cfg d st = Inr (False, st')"
    and s0: "served_customers st' = 0"
  shows "unserved_ok cfg st'"
  using step
proof (cases rule: step_cases)
  case (event t p e ev rest)
  let ?s1 = "st\<lparr>now := t, evq := rest\<rparr>"
  from served_callbacks [OF event(4)] s0 have "served_customers st = 0" by simp
  with K have K0: "unserved_ok cfg st" by blast
  have K1: "unserved_ok cfg ?s1" by (rule unserved_pop [OF K0 event(1)])
  show ?thesis
  proof (cases ev)
    case (InitCust n)
    from popped_customer(1) [OF wf event(1) InitCust]
    have ph: "phase (custs st n) = NotStarted" by simp
    from wf have "cust_ok_c (cnt st) st n" by (simp add: wf_def wf_c_def)
    with ph have z: "cnt st (ReqEv n) = 0" "cnt st (PatienceEv n) = 0" "cnt st (CondEv n) = 0"
      by (simp_all add: cust_ok_c_def)
    have none: "event_of x \<noteq> ReqEv n \<and> event_of x \<noteq> PatienceEv n \<and> event_of x \<noteq> CondEv n"
      if "x \<in> set (evq ?s1)" for x
    proof -
      from that event(1) have "x \<in> set (evq st)" by simp
      with z show ?thesis by (blast dest: cnt_zero)
    qed
    show ?thesis by (rule unserved_start [OF K1 none event(4) [unfolded InitCust]])
  next
    case (ReqEv n)
    show ?thesis
      by (rule unserved_request_event [OF wf K0 event(1) [unfolded ReqEv] event(4) [unfolded ReqEv]])
  next
    case (PatienceEv n)
    show ?thesis
      by (rule unserved_patience_event [OF wf K0 queue_okD(1) [OF qok] event(1) [unfolded PatienceEv]
            event(4) [unfolded PatienceEv]])
  next
    case (CondEv n)
    show ?thesis
      by (rule unserved_resume [OF wf K0 event(1) [unfolded CondEv] event(4) [unfolded CondEv]])
  next
    case (ServiceEv n)
    with effect_done(2) [of cfg d n ?s1 st'] event(4) s0 show ?thesis by simp
  next
    case (ReleaseEv n)
    show ?thesis by (rule unserved_release [OF K1 event(4) [unfolded ReleaseEv]])
  next
    case Until
    with event(2) show ?thesis by simp
  qed (rule unserved_neutral [OF K1 event(4)]; simp)+
qed simp_all

lemma unserved_init:
  assumes "init_state cfg g = Inr s"
  shows "unserved_ok cfg s"
  using assms
  by (auto simp: init_state_def unserved_ok_def race_ok_c_phase new_cust_def schedule_def
      split: if_splits)

lemma unserved_running:
  assumes "during_run cfg d g k = Some st"
  shows "wf st \<and> queue_ok cfg st \<and> (served_customers st = 0 \<longrightarrow> unserved_ok cfg st)"
proof (rule during_running
    [where I = "\<lambda>s. wf s \<and> queue_ok cfg s \<and> (served_customers s = 0 \<longrightarrow> unserved_ok cfg s)",
     OF assms])
  fix s assume "init_state cfg g = Inr s"
  then show "wf s \<and> queue_ok cfg s \<and> (served_customers s = 0 \<longrightarrow> unserved_ok cfg s)"
    by (simp add: wf_init queue_ok_init unserved_init)
next
  fix s s'
  assume I: "wf s \<and> queue_ok cfg s \<and> (served_customers s = 0 \<longrightarrow> unserved_ok cfg s)"
    and step: "step cfg d s = Inr (False, s')"
  from I have wf: "wf s" and qok: "queue_ok cfg s"
    and K: "served_customers s = 0 \<longrightarrow> unserved_ok cfg s" by blast+
  have "served_customers s' = 0 \<longrightarrow> unserved_ok cfg s'"
    using unserved_step [OF wf qok K step] by blast
  with wf_step [OF wf step] queue_ok_step [OF qok step]
  show "wf s' \<and> queue_ok cfg s' \<and> (served_customers s' = 0 \<longrightarrow> unserved_ok cfg s')"
    by blast
qed

lemma waits_zero_final:
  assumes fin: "final_state cfg d g fuel = Inr (Some st)" and s0: "served_customers st = 0"
  shows "\<forall>w \<in> set (waiting_times st). w = 0"
proof -
  from fin obtain k s
    where s: "during_run cfg d g k = Some s" "step cfg d s = Inr (True, st)"
    by (rule final_state_last)
  from s(2) have same: "waiting_times st = waiting_times s"
    "served_customers st = served_customers s"
    by (cases rule: step_cases; simp)+
  from unserved_running [OF s(1)] s0 same(2) have "unserved_ok cfg s" by simp
  from unserved_okD(1) [OF this] same(1) show ?thesis by simp
qed

lemma sum_list_zeros: "\<forall>w \<in> set ws. w = (0::rat) \<Longrightarrow> sum_list ws = 0"
  by (induction ws) auto

text \<open>
  Claim C5: the reported average waiting time is the sum of the recorded waits divided
  by their number (0 when no wait was recorded), and it is 0 when no customer was served:
  a customer that was granted a teller but not served by the horizon has a recorded wait,
  yet as long as nobody has been served every grant was made on arrival, so that wait is 0.
\<close>

theorem C5_avg_waiting_time:
  assumes "run_simulation cfg draws g fuel = Inr (Some (r, g'))"
  shows "(wait_times r \<noteq> [] \<longrightarrow>
            avg_waiting_time r = sum_list (wait_times r) / of_nat (length (wait_times r))) \<and>
         (wait_times r = [] \<longrightarrow> avg_waiting_time r = 0) \<and>
         (served r = 0 \<longrightarrow> avg_waiting_time r = 0)"
proof -
  from assms obtain st where st: "final_state cfg draws g fuel = Inr (Some st)"
    "r = result_of st"
    by (rule run_simulation_final)
  have "avg_waiting_time r = 0" if "served r = 0"
  proof -
    from that st(2) have "served_customers st = 0" by (simp add: result_of_def)
    from waits_zero_final [OF st(1) this] have "sum_list (waiting_times st) = 0"
      by (rule sum_list_zeros)
    with st(2) show ?thesis by (simp add: avg_waiting_time_def result_of_def)
  qed
  then show ?thesis by (simp add: avg_waiting_time_def)
qed

theorem C5_avg_waiting_time_witness:
  "\<exists>r g'. run_simulation source_config stream_c 0 200 = Inr (Some (r, g')) \<and>
     served r = 0 \<and> wait_times r = [0, 0] \<and>
     avg_waiting_time r = sum_list (wait_times r) / of_nat (length (wait_times r)) \<and>
     avg_waiting_time r = 0"
proof -
  from final_stream_c obtain st
    where st: "final_state source_config stream_c 0 200 = Inr (Some st)"
      "result_of st = \<lparr>served = 0, balked = 1, reneged = 3, wait_times = [0, 0],
                       queue_samples = [0, 3, 3, 3, 3, 3, 3] @ replicate 93 0,
                       busy_time = 1 / 5\<rparr>"
    by (auto split: sum.splits option.splits)
  from st(1) have run: "run_simulation source_config stream_c 0 200 =
      Inr (Some (result_of st, rng st))"
    by (simp add: run_simulation_def)
  from C5_avg_waiting_time [OF run] st(2)
  have "avg_waiting_time (result_of st) =
          sum_list (wait_times (result_of st)) / of_nat (length (wait_times (result_of st))) \<and>
        avg_waiting_time (result_of st) = 0"
    by simp
  with run st(2) show ?thesis by auto
qed

end
